theory Spec2Isabelle
  imports Main "HOL-Library.Sublist"
begin

section \<open>The URL checker: data model\<close>

text \<open>
  The package \<open>models\<close>. \<open>LinkStatus\<close> and \<open>BatchStatus\<close> are string types in
  the source with three named constants each; the service only ever produces those
  constants, so each is a datatype, and \<open>LinkStatus_string\<close> is the conversion
  \<open>string(link.Status)\<close>. A \<open>*time.Time\<close> is a \<open>time option\<close> (\<open>None\<close> is
  \<open>nil\<close>, SQL \<open>NULL\<close>); an instant is the reading of a logical clock.
\<close>

type_synonym time = nat

datatype LinkStatus = StatusAvailable | StatusNotAvailable | StatusProcessing

datatype BatchStatus = BatchStatusProcessing | BatchStatusCompleted | BatchStatusFailed

fun LinkStatus_string :: "LinkStatus \<Rightarrow> string" where
  "LinkStatus_string StatusAvailable = ''available''"
| "LinkStatus_string StatusNotAvailable = ''not available''"
| "LinkStatus_string StatusProcessing = ''processing''"

record Link =
  ID :: int
  URL :: string
  Status :: LinkStatus
  BatchNum :: int
  Time :: "time option"

record Batch =
  LinksNum :: int
  BStatus :: BatchStatus
  CreatedAt :: time

record CheckResponse =
  Links :: "string \<rightharpoonup> string"
  RespLinksNum :: int

text \<open>
  The report is kept as what \<open>GeneratePDFReport\<close> hands to the PDF library, not
  as bytes: the instant of generation and, per batch, its row and one line (address
  and label) per link.
\<close>

record Section =
  batch :: Batch
  link_lines :: "(string \<times> string) list"

record Document =
  generated :: time
  sections :: "Section list"

section \<open>Errors, contexts and the environment\<close>

text \<open>
  A Go \<open>error\<close> is a value. \<open>Wrap msg e\<close> is \<open>fmt.Errorf(msg + ": %w", e)\<close>;
  \<open>ContextErr\<close> is the error of a done context (\<open>context.Canceled\<close> or
  \<open>context.DeadlineExceeded\<close>); \<open>StorageFault\<close> is any failure of the storage
  engine itself; \<open>UniqueConstraint\<close> is the violation of \<open>links_num INTEGER PRIMARY
  KEY\<close>; \<open>RenderFault\<close> is an error of the PDF library's \<open>Output\<close>.
\<close>

datatype error =
    NoLinksProvided
  | NoBatchIDsProvided
  | NoValidBatchesFound
  | ServiceShuttingDown
  | PDFGenerationTimeout
  | ContextErr
  | StorageFault
  | UniqueConstraint
  | RenderFault
  | InvalidURL
  | TransportError
  | Wrap string error

fun cause :: "error \<Rightarrow> error" where
  "cause (Wrap msg e) = cause e"
| "cause e = e"

text \<open>
  A \<open>context.Context\<close> is the tick of the logical clock from which its \<open>Done\<close>
  channel is closed (\<open>None\<close>: never, as for \<open>context.Background()\<close>). The clock
  counts the observations of the context made so far, so a cancellation can fall
  between any two of them, and once closed the channel stays closed.
\<close>

type_synonym ctx = "nat option"

definition Done :: "ctx \<Rightarrow> nat \<Rightarrow> bool" where
  "Done c t = (case c of None \<Rightarrow> False | Some k \<Rightarrow> k \<le> t)"

text \<open>
  What lies outside the repository is a parameter: \<open>url_Parse\<close> is \<open>url.Parse\<close>
  followed by the read of \<open>Host\<close>, \<open>http_NewRequest\<close> is \<open>http.NewRequest("GET", _,
  nil)\<close>, \<open>httpClient_Do\<close> is the round trip at an instant (a transport error or
  the status code of the response), \<open>storage_faults\<close> lists the ticks at which the
  storage engine fails a statement, \<open>pdf_Output\<close> says whether the PDF library
  reports an error for a document.
\<close>

record env =
  url_Parse :: "string \<Rightarrow> error + string"
  http_NewRequest :: "string \<Rightarrow> error option"
  httpClient_Do :: "nat \<Rightarrow> string \<Rightarrow> error + int"
  storage_faults :: "nat list"
  pdf_Output :: "Document \<Rightarrow> error option"

text \<open>
  Modelled from the spec: the context parameter of the storage layer. The methods of
  \<open>Database\<close> in the source take no context, while the service passes one to each
  of them; by the spec every storage operation accepts the cancellation signal and
  fails with a cancellation error when it has fired. \<open>fate\<close> is what happens to one
  statement issued at tick \<open>t\<close>.
\<close>

datatype op_fate = Proceeds | Cancelled | Faults

definition fate :: "ctx \<Rightarrow> env \<Rightarrow> nat \<Rightarrow> op_fate" where
  "fate c e t =
     (if Done c t then Cancelled
      else if t \<in> set (storage_faults e) then Faults
      else Proceeds)"

fun fate_error :: "op_fate \<Rightarrow> error option" where
  "fate_error Proceeds = None"
| "fate_error Cancelled = Some ContextErr"
| "fate_error Faults = Some StorageFault"

section \<open>The storage layer\<close>

text \<open>
  The two tables of \<open>createTables\<close>, rows in insertion order. \<open>link_seq\<close> is the
  \<open>AUTOINCREMENT\<close> counter of \<open>links.id\<close>: the largest id ever handed out.
\<close>

record Database =
  batches :: "Batch list"
  links :: "Link list"
  link_seq :: int

definition batch_nums :: "Database \<Rightarrow> int list" where
  "batch_nums d = map LinksNum (batches d)"

text \<open>\<open>INSERT INTO batches\<close>: refused when the primary key is already there.\<close>

definition CreateBatch ::
  "op_fate \<Rightarrow> int \<Rightarrow> BatchStatus \<Rightarrow> time \<Rightarrow> Database \<Rightarrow> error option \<times> Database" where
  "CreateBatch f linksNum status createdAt d =
     (case fate_error f of
        Some err \<Rightarrow> (Some (Wrap ''failed to create batch'' err), d)
      | None \<Rightarrow>
          if linksNum \<in> set (batch_nums d)
          then (Some (Wrap ''failed to create batch'' UniqueConstraint), d)
          else (None, d\<lparr>batches := batches d @
                  [\<lparr>LinksNum = linksNum, BStatus = status, CreatedAt = createdAt\<rparr>]\<rparr>))"

text \<open>\<open>INSERT INTO links\<close> and \<open>LastInsertId\<close>.\<close>

definition next_link_id :: "Database \<Rightarrow> int" where
  "next_link_id d = fold max (map ID (links d)) (link_seq d) + 1"

definition CreateLink ::
  "op_fate \<Rightarrow> string \<Rightarrow> LinkStatus \<Rightarrow> int \<Rightarrow> time option \<Rightarrow> Database
     \<Rightarrow> (error + int) \<times> Database" where
  "CreateLink f url status batchNum tm d =
     (case fate_error f of
        Some err \<Rightarrow> (Inl (Wrap ''failed to create link'' err), d)
      | None \<Rightarrow>
          let i = next_link_id d in
          (Inr i, d\<lparr>links := links d @
                  [\<lparr>ID = i, URL = url, Status = status, BatchNum = batchNum, Time = tm\<rparr>],
                link_seq := i\<rparr>))"

text \<open>\<open>UPDATE links SET status = ?, time = ? WHERE id = ?\<close>: no row is no error.\<close>

definition UpdateLinkStatus ::
  "op_fate \<Rightarrow> int \<Rightarrow> LinkStatus \<Rightarrow> time option \<Rightarrow> Database \<Rightarrow> error option \<times> Database" where
  "UpdateLinkStatus f i status tm d =
     (case fate_error f of
        Some err \<Rightarrow> (Some (Wrap ''failed to update link status'' err), d)
      | None \<Rightarrow>
          (None, d\<lparr>links :=
             map (\<lambda>l. if ID l = i then l\<lparr>Status := status, Time := tm\<rparr> else l) (links d)\<rparr>))"

text \<open>\<open>UPDATE batches SET status = ? WHERE links_num = ?\<close>.\<close>

definition UpdateBatchStatus ::
  "op_fate \<Rightarrow> int \<Rightarrow> BatchStatus \<Rightarrow> Database \<Rightarrow> error option \<times> Database" where
  "UpdateBatchStatus f linksNum status d =
     (case fate_error f of
        Some err \<Rightarrow> (Some (Wrap ''failed to update batch status'' err), d)
      | None \<Rightarrow>
          (None, d\<lparr>batches :=
             map (\<lambda>b. if LinksNum b = linksNum then b\<lparr>BStatus := status\<rparr> else b) (batches d)\<rparr>))"

text \<open>\<open>SELECT COALESCE(MAX(links_num), 0) FROM batches\<close>.\<close>

definition max_batch_num :: "Database \<Rightarrow> int" where
  "max_batch_num d = (case batch_nums d of [] \<Rightarrow> 0 | n # ns \<Rightarrow> fold max ns n)"

definition GetMaxBatchNum :: "op_fate \<Rightarrow> Database \<Rightarrow> error + int" where
  "GetMaxBatchNum f d =
     (case fate_error f of
        Some err \<Rightarrow> Inl (Wrap ''failed to get max batch num'' err)
      | None \<Rightarrow> Inr (max_batch_num d))"

text \<open>
  \<open>GetBatchesByIDs\<close>: the empty list is refused before any statement; then two
  statements, \<open>... WHERE links_num IN (...) ORDER BY links_num\<close> on the batches and
  \<open>... WHERE batch_num IN (...) ORDER BY batch_num, id\<close> on the links, each with a
  fate of its own.
\<close>

definition GetBatchesByIDs ::
  "op_fate \<Rightarrow> op_fate \<Rightarrow> int list \<Rightarrow> Database \<Rightarrow> error + (Batch list \<times> Link list)" where
  "GetBatchesByIDs f1 f2 batchIDs d =
     (if batchIDs = [] then Inl NoBatchIDsProvided
      else case fate_error f1 of
        Some err \<Rightarrow> Inl (Wrap ''failed to query batches'' err)
      | None \<Rightarrow>
          (case fate_error f2 of
             Some err \<Rightarrow> Inl (Wrap ''failed to query links'' err)
           | None \<Rightarrow>
               Inr (sort_key LinksNum (filter (\<lambda>b. LinksNum b \<in> set batchIDs) (batches d)),
                    sort_key BatchNum
                      (sort_key ID (filter (\<lambda>l. BatchNum l \<in> set batchIDs) (links d))))))"

section \<open>The reachability prober\<close>

text \<open>
  \<open>checkURLAvailability\<close>, probing at instant \<open>t\<close>; \<open>with_scheme\<close> is its first
  statement, the default scheme put before an address that has none. The log
  records at warning and information level are not part of the model.
\<close>

definition with_scheme :: "string \<Rightarrow> string" where
  "with_scheme rawURL =
     (if \<not> prefix ''http://'' rawURL \<and> \<not> prefix ''https://'' rawURL
      then ''http://'' @ rawURL else rawURL)"

definition checkURLAvailability :: "env \<Rightarrow> nat \<Rightarrow> string \<Rightarrow> LinkStatus" where
  "checkURLAvailability e t rawURL0 =
     (let rawURL = with_scheme rawURL0
      in case url_Parse e rawURL of
           Inl err \<Rightarrow> StatusNotAvailable
         | Inr host \<Rightarrow>
             if host = [] then StatusNotAvailable
             else (case http_NewRequest e rawURL of
                     Some err \<Rightarrow> StatusNotAvailable
                   | None \<Rightarrow>
                       (case httpClient_Do e t rawURL of
                          Inl err \<Rightarrow> StatusNotAvailable
                        | Inr StatusCode \<Rightarrow>
                            if 200 \<le> StatusCode \<and> StatusCode < 400 then StatusAvailable
                            else StatusNotAvailable)))"

section \<open>The service\<close>

text \<open>
  The state a call runs on: the store, the records the logger wrote at error level,
  the report tasks allocated so far (a task is shared between the queue, the worker
  and its requester, so the queue holds addresses into \<open>tasks\<close>), the queue of
  capacity 10, the shutdown flag and the logical clock. A buffered channel of
  capacity one is the list of what it holds.
\<close>

datatype log_record =
    FailedToUpdateLinkStatus string error
  | FailedToUpdateBatchStatus error

record PDFTask =
  BatchIDs :: "int list"
  Result :: "Document list"
  Error :: "error list"

record URLChecker =
  db :: Database
  logger :: "log_record list"
  tasks :: "PDFTask list"
  pendingPDFTasks :: "nat list"
  shutdown :: bool
  clock :: nat

definition NewURLChecker :: "Database \<Rightarrow> URLChecker" where
  "NewURLChecker d =
     \<lparr>db = d, logger = [], tasks = [], pendingPDFTasks = [], shutdown = False, clock = 0\<rparr>"

definition pendingPDFTasks_cap :: nat where
  "pendingPDFTasks_cap = 10"

text \<open>
  One observation of the context ticks the clock: \<open>statement\<close> is a call into the
  storage layer, \<open>ctx_Done\<close> is the non-blocking \<open>select\<close> on \<open>ctx.Done()\<close> with a
  \<open>default\<close> branch.
\<close>

definition statement :: "ctx \<Rightarrow> env \<Rightarrow> URLChecker \<Rightarrow> op_fate \<times> URLChecker" where
  "statement c e s = (fate c e (clock s), s\<lparr>clock := Suc (clock s)\<rparr>)"

definition ctx_Done :: "ctx \<Rightarrow> URLChecker \<Rightarrow> bool \<times> URLChecker" where
  "ctx_Done c s = (Done c (clock s), s\<lparr>clock := Suc (clock s)\<rparr>)"

text \<open>
  Go's \<open>int\<close> on a 64-bit platform: the sum \<open>maxID + 1\<close> wraps around silently.
\<close>

definition go_int :: "int \<Rightarrow> int" where
  "go_int x = (x + 2 ^ 63) mod 2 ^ 64 - 2 ^ 63"

definition getNextID :: "ctx \<Rightarrow> env \<Rightarrow> URLChecker \<Rightarrow> (error + int) \<times> URLChecker" where
  "getNextID c e s =
     (let (f, s1) = statement c e s in
      case GetMaxBatchNum f (db s1) of
        Inl err \<Rightarrow> (Inl (Wrap ''failed to get max batch num'' err), s1)
      | Inr maxID \<Rightarrow> (Inr (go_int (maxID + 1)), s1))"

text \<open>The first loop of \<open>processLinks\<close>: one row per address, in input order.\<close>

fun create_links ::
  "ctx \<Rightarrow> env \<Rightarrow> int \<Rightarrow> string list \<Rightarrow> URLChecker \<Rightarrow> (error + int list) \<times> URLChecker" where
  "create_links c e batchNum [] s = (Inr [], s)"
| "create_links c e batchNum (link # rest) s =
     (let (f, s1) = statement c e s;
          (r, d) = CreateLink f link StatusProcessing batchNum None (db s1);
          s2 = s1\<lparr>db := d\<rparr>
      in case r of
           Inl err \<Rightarrow> (Inl (Wrap (''failed to create link for '' @ link) err), s2)
         | Inr linkID \<Rightarrow>
             (case create_links c e batchNum rest s2 of
                (Inl err, s3) \<Rightarrow> (Inl err, s3)
              | (Inr linkIDs, s3) \<Rightarrow> (Inr (linkID # linkIDs), s3)))"

text \<open>
  The body of the goroutine of \<open>processLinks\<close> for the address at index \<open>idx\<close>. A
  \<open>nil\<close> slot of \<open>results\<close> is \<open>None\<close>; \<open>stamp\<close> is the statement that points
  \<open>time\<close> at \<open>processedAt\<close> when the status is a verdict.
\<close>

definition stamp :: "LinkStatus \<Rightarrow> time \<Rightarrow> time option" where
  "stamp status processedAt =
     (if status = StatusAvailable \<or> status = StatusNotAvailable then Some processedAt else None)"

definition unit_of_work ::
  "ctx \<Rightarrow> env \<Rightarrow> int \<Rightarrow> nat \<Rightarrow> string \<Rightarrow> int \<Rightarrow> URLChecker \<times> Link option list
     \<Rightarrow> URLChecker \<times> Link option list" where
  "unit_of_work c e batchNum idx l linkID sr =
     (let (s, results) = sr;
          (cancelled1, s1) = ctx_Done c s
      in if cancelled1 then (s1, results)
         else
           let status = checkURLAvailability e (clock s1) l;
               processedAt = clock s1;
               tm = stamp status processedAt;
               (cancelled2, s2) = ctx_Done c s1
           in if cancelled2 then (s2, results)
              else
                let (f, s3) = statement c e s2;
                    (err, d) = UpdateLinkStatus f linkID status tm (db s3);
                    s4 = s3\<lparr>db := d\<rparr>;
                    s5 = (case err of
                            Some er \<Rightarrow> s4\<lparr>logger := logger s4 @ [FailedToUpdateLinkStatus l er]\<rparr>
                          | None \<Rightarrow> s4)
                in (s5, results[idx :=
                      Some \<lparr>ID = linkID, URL = l, Status = status, BatchNum = batchNum, Time = tm\<rparr>]))"

text \<open>
  The fan-out and the join. The goroutines write disjoint rows and disjoint slots;
  the model runs them one after the other in input order, each seeing the context
  at its own ticks.
\<close>

fun fan_out ::
  "ctx \<Rightarrow> env \<Rightarrow> int \<Rightarrow> nat \<Rightarrow> (string \<times> int) list \<Rightarrow> URLChecker \<times> Link option list
     \<Rightarrow> URLChecker \<times> Link option list" where
  "fan_out c e batchNum idx [] sr = sr"
| "fan_out c e batchNum idx ((l, linkID) # rest) sr =
     fan_out c e batchNum (Suc idx) rest (unit_of_work c e batchNum idx l linkID sr)"

definition processLinks ::
  "ctx \<Rightarrow> env \<Rightarrow> string list \<Rightarrow> int \<Rightarrow> URLChecker \<Rightarrow> (error + Link option list) \<times> URLChecker" where
  "processLinks c e links0 batchNum s =
     (case create_links c e batchNum links0 s of
        (Inl err, s1) \<Rightarrow> (Inl err, s1)
      | (Inr linkIDs, s1) \<Rightarrow>
          let (s2, results) =
                fan_out c e batchNum 0 (zip links0 linkIDs) (s1, replicate (length links0) None);
              (f, s3) = statement c e s2;
              (err, d) = UpdateBatchStatus f batchNum BatchStatusCompleted (db s3);
              s4 = s3\<lparr>db := d\<rparr>;
              s5 = (case err of
                      Some er \<Rightarrow> s4\<lparr>logger := logger s4 @ [FailedToUpdateBatchStatus er]\<rparr>
                    | None \<Rightarrow> s4)
          in (Inr results, s5))"

text \<open>
  The loop of \<open>CheckLinks\<close> that builds \<open>resultLinks\<close>; it reads \<open>link.URL\<close> of
  every slot, which panics on a \<open>nil\<close> slot: \<open>None\<close>.
\<close>

fun assemble :: "Link option list \<Rightarrow> (string \<rightharpoonup> string) \<Rightarrow> (string \<rightharpoonup> string) option" where
  "assemble [] resultLinks = Some resultLinks"
| "assemble (None # rest) resultLinks = None"
| "assemble (Some link # rest) resultLinks =
     assemble rest (resultLinks(URL link \<mapsto> LinkStatus_string (Status link)))"

text \<open>What a call comes to: a value, an error, or a run-time panic.\<close>

datatype 'a outcome = Value 'a | Failure error | Panic

definition CheckLinks ::
  "ctx \<Rightarrow> env \<Rightarrow> string list \<Rightarrow> URLChecker \<Rightarrow> CheckResponse outcome \<times> URLChecker" where
  "CheckLinks c e links0 s =
     (if links0 = [] then (Failure NoLinksProvided, s)
      else case getNextID c e s of
        (Inl err, s1) \<Rightarrow> (Failure (Wrap ''failed to get next batch ID'' err), s1)
      | (Inr batchNum, s1) \<Rightarrow>
          let (f, s2) = statement c e s1;
              (err, d) = CreateBatch f batchNum BatchStatusProcessing (clock s1) (db s2);
              s3 = s2\<lparr>db := d\<rparr>
          in (case err of
                Some er \<Rightarrow> (Failure (Wrap ''failed to create batch'' er), s3)
              | None \<Rightarrow>
                  (case processLinks c e links0 batchNum s3 of
                     (Inl er, s4) \<Rightarrow>
                       (let (f', s5) = statement c e s4;
                            (ignored, d') = UpdateBatchStatus f' batchNum BatchStatusFailed (db s5)
                        in (Failure (Wrap ''failed to process links'' er), s5\<lparr>db := d'\<rparr>))
                   | (Inr processedLinks, s4) \<Rightarrow>
                       (case assemble processedLinks Map.empty of
                          None \<Rightarrow> (Panic, s4)
                        | Some resultLinks \<Rightarrow>
                            (Value \<lparr>Links = resultLinks, RespLinksNum = batchNum\<rparr>, s4)))))"

section \<open>Reports\<close>

definition statusText :: "Link \<Rightarrow> string" where
  "statusText link = (if Status link = StatusAvailable then ''Available'' else ''Not Available'')"

text \<open>
  \<open>GeneratePDFReport\<close>. \<open>batchLinks\<close> groups the links read by batch number in the
  order read, so the lines of a batch are the links read with its number. The two
  statements of \<open>GetBatchesByIDs\<close> each observe the context.
\<close>

definition render :: "time \<Rightarrow> Batch list \<Rightarrow> Link list \<Rightarrow> Document" where
  "render now bs ls =
     \<lparr>generated = now,
      sections = map (\<lambda>b. \<lparr>batch = b,
                             link_lines = map (\<lambda>l. (URL l, statusText l))
                                            (filter (\<lambda>l. BatchNum l = LinksNum b) ls)\<rparr>) bs\<rparr>"

definition GeneratePDFReport ::
  "ctx \<Rightarrow> env \<Rightarrow> int list \<Rightarrow> URLChecker \<Rightarrow> (error + Document) \<times> URLChecker" where
  "GeneratePDFReport c e batchIDs s =
     (let (f1, s1) = statement c e s;
          (f2, s2) = statement c e s1
      in case GetBatchesByIDs f1 f2 batchIDs (db s2) of
           Inl err \<Rightarrow> (Inl (Wrap ''failed to get batches data'' err), s2)
         | Inr (bs, ls) \<Rightarrow>
             if bs = [] then (Inl NoValidBatchesFound, s2)
             else (let pdf = render (clock s2) bs ls
                   in case pdf_Output e pdf of
                        Some err \<Rightarrow> (Inl err, s2)
                      | None \<Rightarrow> (Inr pdf, s2)))"

text \<open>
  \<open>GeneratePDFReportAsync\<close> up to the point where it blocks: it has finished, or it
  has put a new task on the queue and waits for the task at the address returned.
  The \<open>select\<close> with a \<open>default\<close> branch sends when the buffer has room. A task
  that is not sent is garbage and is not kept in \<open>tasks\<close>.
\<close>

datatype async = Finished "error + Document" | Waiting nat

definition GeneratePDFReportAsync ::
  "ctx \<Rightarrow> env \<Rightarrow> int list \<Rightarrow> URLChecker \<Rightarrow> async \<times> URLChecker" where
  "GeneratePDFReportAsync c e batchIDs s =
     (if shutdown s then (Finished (Inl ServiceShuttingDown), s)
      else
        let task = \<lparr>BatchIDs = batchIDs, Result = [], Error = []\<rparr>
        in if length (pendingPDFTasks s) < pendingPDFTasks_cap
           then (Waiting (length (tasks s)),
                 s\<lparr>tasks := tasks s @ [task],
                   pendingPDFTasks := pendingPDFTasks s @ [length (tasks s)]\<rparr>)
           else (let (r, s1) = GeneratePDFReport c e batchIDs s in (Finished r, s1)))"

text \<open>
  The blocking \<open>select\<close> of the requester, on the task at address \<open>a\<close>, after
  \<open>waited\<close> nanoseconds: a case that is ready may be taken. \<open>time.After(30 *
  time.Second)\<close> is ready once thirty seconds have passed.
\<close>

definition Second :: nat where
  "Second = 1000000000"

inductive await :: "ctx \<Rightarrow> URLChecker \<Rightarrow> nat \<Rightarrow> nat \<Rightarrow> error + Document \<Rightarrow> bool" where
  on_Result:
    "a < length (tasks s) \<Longrightarrow> Result (tasks s ! a) = pdfData # rest \<Longrightarrow>
     await c s a waited (Inr pdfData)"
| on_Error:
    "a < length (tasks s) \<Longrightarrow> Error (tasks s ! a) = err # rest \<Longrightarrow>
     await c s a waited (Inl err)"
| on_timeout:
    "30 * Second \<le> waited \<Longrightarrow> await c s a waited (Inl PDFGenerationTimeout)"
| on_ctx_Done:
    "Done c (clock s) \<Longrightarrow> await c s a waited (Inl ContextErr)"

text \<open>
  \<open>processPDFTask\<close> on the task at address \<open>a\<close>, and one turn of the loop of
  \<open>StartWorker\<close>: it returns (\<open>None\<close>) when its context is done, or takes the task
  at the head of the queue.
\<close>

definition processPDFTask :: "ctx \<Rightarrow> env \<Rightarrow> nat \<Rightarrow> URLChecker \<Rightarrow> URLChecker" where
  "processPDFTask c e a s =
     (let task = tasks s ! a;
          (r, s1) = GeneratePDFReport c e (BatchIDs task) s
      in case r of
           Inl err \<Rightarrow> s1\<lparr>tasks := (tasks s1)[a := task\<lparr>Error := Error task @ [err]\<rparr>]\<rparr>
         | Inr pdfData \<Rightarrow> s1\<lparr>tasks := (tasks s1)[a := task\<lparr>Result := Result task @ [pdfData]\<rparr>]\<rparr>)"

inductive StartWorker :: "ctx \<Rightarrow> env \<Rightarrow> URLChecker \<Rightarrow> URLChecker option \<Rightarrow> bool" where
  worker_Done:
    "Done c (clock s) \<Longrightarrow> StartWorker c e s None"
| worker_task:
    "pendingPDFTasks s = a # rest \<Longrightarrow>
     StartWorker c e s (Some (processPDFTask c e a (s\<lparr>pendingPDFTasks := rest\<rparr>)))"

section \<open>Concurrent admission\<close>

text \<open>
  Several calls of \<open>CheckLinks\<close> on one store, interleaved statement by statement.
  Call \<open>i\<close> has its own context \<open>cs ! i\<close> and is at one of four points: it has not
  read the maximum yet, it holds the number \<open>getNextID\<close> returned, its batch row is
  in, or it has returned an error. \<open>elsewhere\<close> stands for every other statement
  on the store (the link rows and the status updates of the calls that are in):
  none of them adds or removes a batch row. The third component lists the numbers
  admitted so far, oldest first.
\<close>

datatype admission = Arrived | Allocated int | Admitted int | Refused error

inductive admit ::
  "ctx list \<Rightarrow> env \<Rightarrow> URLChecker \<times> admission list \<times> int list
     \<Rightarrow> URLChecker \<times> admission list \<times> int list \<Rightarrow> bool"
  for cs :: "ctx list" and e :: env where
  allocate:
    "i < length ps \<Longrightarrow> ps ! i = Arrived \<Longrightarrow>
     getNextID (cs ! i) e s = (Inr batchNum, s1) \<Longrightarrow>
     admit cs e (s, ps, hist) (s1, ps[i := Allocated batchNum], hist)"
| allocate_failed:
    "i < length ps \<Longrightarrow> ps ! i = Arrived \<Longrightarrow>
     getNextID (cs ! i) e s = (Inl err, s1) \<Longrightarrow>
     admit cs e (s, ps, hist)
       (s1, ps[i := Refused (Wrap ''failed to get next batch ID'' err)], hist)"
| insert:
    "i < length ps \<Longrightarrow> ps ! i = Allocated batchNum \<Longrightarrow>
     statement (cs ! i) e s = (f, s1) \<Longrightarrow>
     CreateBatch f batchNum BatchStatusProcessing (clock s) (db s1) = (None, d) \<Longrightarrow>
     admit cs e (s, ps, hist) (s1\<lparr>db := d\<rparr>, ps[i := Admitted batchNum], hist @ [batchNum])"
| insert_failed:
    "i < length ps \<Longrightarrow> ps ! i = Allocated batchNum \<Longrightarrow>
     statement (cs ! i) e s = (f, s1) \<Longrightarrow>
     CreateBatch f batchNum BatchStatusProcessing (clock s) (db s1) = (Some err, d) \<Longrightarrow>
     admit cs e (s, ps, hist)
       (s1\<lparr>db := d\<rparr>, ps[i := Refused (Wrap ''failed to create batch'' err)], hist)"
| elsewhere:
    "batch_nums (db s1) = batch_nums (db s) \<Longrightarrow>
     admit cs e (s, ps, hist) (s1, ps, hist)"

definition admissions ::
  "ctx list \<Rightarrow> env \<Rightarrow> URLChecker \<times> admission list \<times> int list
     \<Rightarrow> URLChecker \<times> admission list \<times> int list \<Rightarrow> bool" where
  "admissions cs e = (admit cs e)\<^sup>*\<^sup>*"

text \<open>The range of a 64-bit signed integer.\<close>

definition int64 :: "int \<Rightarrow> bool" where
  "int64 n = (- (2 ^ 63) \<le> n \<and> n < 2 ^ 63)"

text \<open>
  What holds of every state the interleaved calls reach from a store \<open>s0\<close>: the
  batch numbers of the store are those of \<open>s0\<close> followed by the numbers admitted,
  in order; no number was admitted twice or was in \<open>s0\<close>; a call that is in holds
  an admitted number, and no two calls hold the same; a number a call holds, its
  row not yet in, is the one \<open>getNextID\<close> would return now or is already taken.
  \<open>no_wrap\<close> says that the numbers of a store are 64-bit integers below the
  largest one, so that \<open>maxID + 1\<close> does not wrap around on it.
\<close>

definition no_wrap :: "URLChecker \<Rightarrow> bool" where
  "no_wrap s = (\<forall>n \<in> set (batch_nums (db s)). int64 n \<and> n < 2 ^ 63 - 1)"

definition admission_inv ::
  "URLChecker \<Rightarrow> URLChecker \<times> admission list \<times> int list \<Rightarrow> bool" where
  "admission_inv s0 x =
     (case x of (s, ps, hist) \<Rightarrow>
        batch_nums (db s) = batch_nums (db s0) @ hist \<and>
        distinct hist \<and>
        set hist \<inter> set (batch_nums (db s0)) = {} \<and>
        (\<forall>i n. i < length ps \<and> ps ! i = Admitted n \<longrightarrow> n \<in> set hist) \<and>
        (\<forall>i j n. i < length ps \<and> j < length ps \<and> i \<noteq> j \<and> ps ! i = Admitted n
           \<longrightarrow> ps ! j \<noteq> Admitted n) \<and>
        (\<forall>i n. i < length ps \<and> ps ! i = Allocated n \<longrightarrow>
           n = go_int (max_batch_num (db s) + 1) \<or> n \<in> set (batch_nums (db s))) \<and>
        (no_wrap s \<longrightarrow>
           sorted_wrt (<) hist \<and> (\<forall>h \<in> set hist. \<forall>m \<in> set (batch_nums (db s0)). m < h)))"

section \<open>Admission\<close>

text \<open>
  Names for what \<open>CheckLinks\<close> computes on its way: the number \<open>getNextID\<close>
  returns on a store, and the state in which \<open>processLinks\<close> starts once the read
  of the maximum and the insertion of the batch row have gone through (two ticks,
  the batch row appended with status \<open>processing\<close>).
\<close>

definition next_batch_num :: "URLChecker \<Rightarrow> int" where
  "next_batch_num s = go_int (max_batch_num (db s) + 1)"

definition admitted :: "URLChecker \<Rightarrow> URLChecker" where
  "admitted s =
     s\<lparr>clock := Suc (Suc (clock s)),
       db := (db s)\<lparr>batches := batches (db s) @
               [\<lparr>LinksNum = next_batch_num s, BStatus = BatchStatusProcessing,
                 CreatedAt = Suc (clock s)\<rparr>]\<rparr>\<rparr>"

section \<open>Invariants and sample values\<close>

text \<open>The timestamp of a link row is set exactly when its status is a verdict.\<close>

definition timestamp_inv :: "Link \<Rightarrow> bool" where
  "timestamp_inv l = ((Time l \<noteq> None) = (Status l = StatusAvailable \<or> Status l = StatusNotAvailable))"

text \<open>
  From one state of the store to a later one: every link row is a row that was
  there already, unchanged, or satisfies the invariant.
\<close>

definition rows_kept_or_stamped :: "Database \<Rightarrow> Database \<Rightarrow> bool" where
  "rows_kept_or_stamped d d' = (\<forall>l \<in> set (links d'). l \<in> set (links d) \<or> timestamp_inv l)"

text \<open>
  An environment in which every address parses, every request is answered with
  status 200 and nothing fails; the same with every request answered 404; the
  empty store.
\<close>

definition env_ok :: env where
  "env_ok = \<lparr>url_Parse = (\<lambda>u. Inr ''host''), http_NewRequest = (\<lambda>u. None),
             httpClient_Do = (\<lambda>t u. Inr 200), storage_faults = [],
             pdf_Output = (\<lambda>pdf. None)\<rparr>"

definition env_404 :: env where
  "env_404 = env_ok\<lparr>httpClient_Do := (\<lambda>t u. Inr 404)\<rparr>"



definition empty_db :: Database where
  "empty_db = \<lparr>batches = [], links = [], link_seq = 0\<rparr>"

text \<open>
  The store after one address was checked and found available, and a service on
  that store whose report queue holds ten tasks.
\<close>

definition db_one :: Database where
  "db_one = \<lparr>batches = [\<lparr>LinksNum = 1, BStatus = BatchStatusCompleted, CreatedAt = 1\<rparr>],
             links = [\<lparr>ID = 1, URL = ''a'', Status = StatusAvailable, BatchNum = 1,
                       Time = Some 4\<rparr>],
             link_seq = 1\<rparr>"

definition checker_full :: URLChecker where
  "checker_full =
     (NewURLChecker db_one)\<lparr>tasks := replicate 10 \<lparr>BatchIDs = [1], Result = [], Error = []\<rparr>,
                             pendingPDFTasks := [0..<10]\<rparr>"

text \<open>
  A service with nothing logged or queued at a given tick on a given store, and the
  stores with a first batch inserted at tick 2 and a second one at tick 5.
\<close>

definition checker_at :: "nat \<Rightarrow> Database \<Rightarrow> URLChecker" where
  "checker_at t d =
     \<lparr>db = d, logger = [], tasks = [], pendingPDFTasks = [], shutdown = False, clock = t\<rparr>"

definition db_b1 :: Database where
  "db_b1 = \<lparr>batches = [\<lparr>LinksNum = 1, BStatus = BatchStatusProcessing, CreatedAt = 2\<rparr>],
            links = [], link_seq = 0\<rparr>"

definition db_b12 :: Database where
  "db_b12 = \<lparr>batches = [\<lparr>LinksNum = 1, BStatus = BatchStatusProcessing, CreatedAt = 2\<rparr>,
                        \<lparr>LinksNum = 2, BStatus = BatchStatusProcessing, CreatedAt = 5\<rparr>],
             links = [], link_seq = 0\<rparr>"

text \<open>A store whose only batch has the largest number a 64-bit integer holds.\<close>

definition db_max :: Database where
  "db_max = \<lparr>batches = [\<lparr>LinksNum = 9223372036854775807, BStatus = BatchStatusCompleted,
                           CreatedAt = 0\<rparr>],
             links = [], link_seq = 0\<rparr>"

section \<open>The prober's verdict\<close>

text \<open>
  C5. \<open>checkURLAvailability\<close> is a total function into the statuses (it cannot
  raise), its result is always one of the two verdicts, and it is \<open>available\<close>
  exactly when the address with its scheme parses to a non-empty host, the request
  is built, the round trip succeeds and the status code lies in [200, 400). Every
  other code, a parse failure, an empty host or a transport error therefore gives
  \<open>not available\<close>.
\<close>

theorem checkURLAvailability_verdict:
  "(checkURLAvailability e t rawURL = StatusAvailable \<or>
    checkURLAvailability e t rawURL = StatusNotAvailable) \<and>
   (checkURLAvailability e t rawURL = StatusAvailable) =
     (\<exists>host code. url_Parse e (with_scheme rawURL) = Inr host \<and> host \<noteq> [] \<and>
        http_NewRequest e (with_scheme rawURL) = None \<and>
        httpClient_Do e t (with_scheme rawURL) = Inr code \<and> 200 \<le> code \<and> code < 400)"
  by (auto simp: checkURLAvailability_def Let_def split: sum.splits option.splits)

theorem checkURLAvailability_verdict_witness:
  "checkURLAvailability env_ok 0 ''example.com'' = StatusAvailable \<and>
   checkURLAvailability env_404 0 ''example.com'' = StatusNotAvailable"
  using checkURLAvailability_verdict [of env_ok 0 "''example.com''"]
        checkURLAvailability_verdict [of env_404 0 "''example.com''"]
  by (auto simp: env_ok_def env_404_def)

section \<open>Contexts and statements\<close>

lemma Done_mono: "Done c t \<Longrightarrow> t \<le> t' \<Longrightarrow> Done c t'"
  by (auto simp: Done_def split: option.splits)


lemma fate_Done: "Done c t \<Longrightarrow> fate c e t = Cancelled"
  by (simp add: fate_def)

section \<open>The calls, statement by statement\<close>

text \<open>
  Each function of the service written out as what it does to the store and the
  clock; the proofs below start from these equations.
\<close>

lemma getNextID_eq:
  "getNextID c e s =
     (case fate_error (fate c e (clock s)) of
        Some err \<Rightarrow>
          Inl (Wrap ''failed to get max batch num'' (Wrap ''failed to get max batch num'' err))
      | None \<Rightarrow> Inr (go_int (max_batch_num (db s) + 1)),
      s\<lparr>clock := Suc (clock s)\<rparr>)"
  by (simp add: getNextID_def statement_def GetMaxBatchNum_def split: option.splits)

lemma create_links_Cons:
  "create_links c e batchNum (link # rest) s =
     (let r = CreateLink (fate c e (clock s)) link StatusProcessing batchNum None (db s);
          s2 = s\<lparr>clock := Suc (clock s), db := snd r\<rparr>
      in case fst r of
           Inl err \<Rightarrow> (Inl (Wrap (''failed to create link for '' @ link) err), s2)
         | Inr linkID \<Rightarrow>
             (case create_links c e batchNum rest s2 of
                (Inl err, s3) \<Rightarrow> (Inl err, s3)
              | (Inr linkIDs, s3) \<Rightarrow> (Inr (linkID # linkIDs), s3)))"
  by (simp add: statement_def Let_def split: prod.splits sum.splits)

declare create_links.simps(2) [simp del]

lemma unit_of_work_eq:
  "unit_of_work c e batchNum idx l linkID (s, rs) =
     (if Done c (clock s) then (s\<lparr>clock := Suc (clock s)\<rparr>, rs)
      else if Done c (Suc (clock s)) then (s\<lparr>clock := Suc (Suc (clock s))\<rparr>, rs)
      else
        let status = checkURLAvailability e (Suc (clock s)) l;
            tm = stamp status (Suc (clock s));
            r = UpdateLinkStatus (fate c e (Suc (Suc (clock s)))) linkID status tm (db s)
        in (s\<lparr>clock := Suc (Suc (Suc (clock s))),
              db := snd r,
              logger := (case fst r of
                           Some er \<Rightarrow> logger s @ [FailedToUpdateLinkStatus l er]
                         | None \<Rightarrow> logger s)\<rparr>,
            rs[idx := Some \<lparr>ID = linkID, URL = l, Status = status, BatchNum = batchNum, Time = tm\<rparr>]))"
  by (simp add: unit_of_work_def ctx_Done_def statement_def Let_def
        split: prod.splits option.splits)

lemma processLinks_eq:
  "processLinks c e ls batchNum s =
     (case create_links c e batchNum ls s of
        (Inl err, s1) \<Rightarrow> (Inl err, s1)
      | (Inr linkIDs, s1) \<Rightarrow>
          let sr = fan_out c e batchNum 0 (zip ls linkIDs) (s1, replicate (length ls) None);
              s2 = fst sr;
              r = UpdateBatchStatus (fate c e (clock s2)) batchNum BatchStatusCompleted (db s2)
          in (Inr (snd sr),
              s2\<lparr>clock := Suc (clock s2),
                 db := snd r,
                 logger := (case fst r of
                              Some er \<Rightarrow> logger s2 @ [FailedToUpdateBatchStatus er]
                            | None \<Rightarrow> logger s2)\<rparr>))"
  by (simp add: processLinks_def statement_def Let_def
        split: prod.splits sum.splits option.splits)

lemma CheckLinks_eq:
  "ls \<noteq> [] \<Longrightarrow>
   CheckLinks c e ls s =
     (case fate_error (fate c e (clock s)) of
        Some err \<Rightarrow>
          (Failure (Wrap ''failed to get next batch ID''
             (Wrap ''failed to get max batch num'' (Wrap ''failed to get max batch num'' err))),
           s\<lparr>clock := Suc (clock s)\<rparr>)
      | None \<Rightarrow>
          let batchNum = go_int (max_batch_num (db s) + 1);
              r = CreateBatch (fate c e (Suc (clock s))) batchNum BatchStatusProcessing
                    (Suc (clock s)) (db s);
              s3 = s\<lparr>clock := Suc (Suc (clock s)), db := snd r\<rparr>
          in (case fst r of
                Some er \<Rightarrow> (Failure (Wrap ''failed to create batch'' er), s3)
              | None \<Rightarrow>
                  (case processLinks c e ls batchNum s3 of
                     (Inl er, s4) \<Rightarrow>
                       (Failure (Wrap ''failed to process links'' er),
                        s4\<lparr>clock := Suc (clock s4),
                           db := snd (UpdateBatchStatus (fate c e (clock s4)) batchNum
                                        BatchStatusFailed (db s4))\<rparr>)
                   | (Inr processedLinks, s4) \<Rightarrow>
                       (case assemble processedLinks Map.empty of
                          None \<Rightarrow> (Panic, s4)
                        | Some resultLinks \<Rightarrow>
                            (Value \<lparr>Links = resultLinks, RespLinksNum = batchNum\<rparr>, s4)))))"
  by (auto simp: CheckLinks_def getNextID_eq statement_def Let_def
        split: prod.splits sum.splits option.splits)


section \<open>The timestamp invariant\<close>

lemma rows_refl: "rows_kept_or_stamped d d"
  by (simp add: rows_kept_or_stamped_def)

lemma rows_trans:
  "rows_kept_or_stamped d d' \<Longrightarrow> rows_kept_or_stamped d' d'' \<Longrightarrow> rows_kept_or_stamped d d''"
  by (auto simp: rows_kept_or_stamped_def)

lemma rows_same_links: "links d' = links d \<Longrightarrow> rows_kept_or_stamped d d'"
  by (simp add: rows_kept_or_stamped_def)

lemma rows_cong: "links d1 = links d \<Longrightarrow> rows_kept_or_stamped d1 d' \<Longrightarrow> rows_kept_or_stamped d d'"
  by (simp add: rows_kept_or_stamped_def)

lemma CreateLink_rows:
  "rows_kept_or_stamped d (snd (CreateLink f url StatusProcessing batchNum None d))"
  by (auto simp: CreateLink_def rows_kept_or_stamped_def timestamp_inv_def Let_def
           split: option.splits)

lemma stamp_inv:
  "(stamp status t \<noteq> None) = (status = StatusAvailable \<or> status = StatusNotAvailable)"
  by (simp add: stamp_def)

lemma UpdateLinkStatus_rows:
  "(tm \<noteq> None) = (status = StatusAvailable \<or> status = StatusNotAvailable) \<Longrightarrow>
   rows_kept_or_stamped d (snd (UpdateLinkStatus f i status tm d))"
  by (auto simp: UpdateLinkStatus_def rows_kept_or_stamped_def timestamp_inv_def
           split: option.splits)

lemma UpdateLinkStatus_stamp_rows:
  "rows_kept_or_stamped d (snd (UpdateLinkStatus f i status (stamp status t) d))"
  by (rule UpdateLinkStatus_rows) (rule stamp_inv)

lemma UpdateBatchStatus_links: "links (snd (UpdateBatchStatus f n status d)) = links d"
  by (simp add: UpdateBatchStatus_def split: option.splits)

lemma CreateBatch_links: "links (snd (CreateBatch f n status t d)) = links d"
  by (simp add: CreateBatch_def split: option.splits)

lemma create_links_Cons_Inl:
  "fst (CreateLink (fate c e (clock s)) link StatusProcessing batchNum None (db s)) = Inl err \<Longrightarrow>
   create_links c e batchNum (link # rest) s =
     (Inl (Wrap (''failed to create link for '' @ link) err),
      s\<lparr>clock := Suc (clock s),
        db := snd (CreateLink (fate c e (clock s)) link StatusProcessing batchNum None (db s))\<rparr>)"
  by (simp add: create_links_Cons Let_def)

lemma create_links_Cons_Inr:
  "fst (CreateLink (fate c e (clock s)) link StatusProcessing batchNum None (db s)) = Inr linkID \<Longrightarrow>
   create_links c e batchNum rest
     (s\<lparr>clock := Suc (clock s),
        db := snd (CreateLink (fate c e (clock s)) link StatusProcessing batchNum None (db s))\<rparr>)
     = (r, s3) \<Longrightarrow>
   create_links c e batchNum (link # rest) s =
     (case r of Inl err \<Rightarrow> Inl err | Inr linkIDs \<Rightarrow> Inr (linkID # linkIDs), s3)"
  by (cases r) (simp_all add: create_links_Cons Let_def)

lemma create_links_rows:
  "rows_kept_or_stamped (db s) (db (snd (create_links c e batchNum ls s)))"
proof (induction ls arbitrary: s)
  case Nil
  show ?case by (simp add: rows_refl)
next
  case (Cons link rest)
  let ?r = "CreateLink (fate c e (clock s)) link StatusProcessing batchNum None (db s)"
  let ?s2 = "s\<lparr>clock := Suc (clock s), db := snd ?r\<rparr>"
  have step: "rows_kept_or_stamped (db s) (db ?s2)"
    by (simp add: CreateLink_rows)
  have rest: "rows_kept_or_stamped (db ?s2) (db (snd (create_links c e batchNum rest ?s2)))"
    by (rule Cons.IH)
  show ?case
  proof (cases "fst ?r")
    case (Inl err)
    show ?thesis
      unfolding create_links_Cons_Inl [OF Inl] using step by simp
  next
    case (Inr linkID)
    obtain r s3 where rs: "create_links c e batchNum rest ?s2 = (r, s3)"
      by (cases "create_links c e batchNum rest ?s2")
    have "rows_kept_or_stamped (db s) (db s3)"
      using rows_trans [OF step rest] rs by simp
    then show ?thesis
      unfolding create_links_Cons_Inr [OF Inr rs] by simp
  qed
qed

lemma unit_of_work_rows:
  "rows_kept_or_stamped (db s) (db (fst (unit_of_work c e batchNum idx l linkID (s, rs))))"
  by (simp add: unit_of_work_eq Let_def rows_refl UpdateLinkStatus_stamp_rows)

lemma fan_out_rows:
  "rows_kept_or_stamped (db (fst sr)) (db (fst (fan_out c e batchNum idx xs sr)))"
proof (induction xs arbitrary: idx sr)
  case Nil
  show ?case by (simp add: rows_refl)
next
  case (Cons x xs)
  obtain l linkID where x: "x = (l, linkID)" by (cases x)
  obtain s rs where sr: "sr = (s, rs)" by (cases sr)
  have "rows_kept_or_stamped (db s) (db (fst (unit_of_work c e batchNum idx l linkID (s, rs))))"
    by (rule unit_of_work_rows)
  moreover have "rows_kept_or_stamped (db (fst (unit_of_work c e batchNum idx l linkID (s, rs))))
      (db (fst (fan_out c e batchNum (Suc idx) xs (unit_of_work c e batchNum idx l linkID (s, rs)))))"
    by (rule Cons.IH)
  ultimately show ?case using x sr rows_trans by auto
qed

lemma unit_of_work_slot_written:
  "snd (unit_of_work c e batchNum idx l linkID (s, rs)) = rs \<or>
   (\<exists>v. timestamp_inv v \<and> snd (unit_of_work c e batchNum idx l linkID (s, rs)) = rs[idx := Some v])"
proof -
  have "timestamp_inv \<lparr>ID = linkID, URL = l, Status = st, BatchNum = batchNum, Time = stamp st t\<rparr>"
    for st t
    by (simp add: timestamp_inv_def stamp_def)
  then show ?thesis
    by (auto simp: unit_of_work_eq Let_def)
qed

lemma unit_of_work_slots:
  assumes "\<forall>link. Some link \<in> set rs \<longrightarrow> timestamp_inv link"
    and "Some link \<in> set (snd (unit_of_work c e batchNum idx l linkID (s, rs)))"
  shows "timestamp_inv link"
proof -
  from unit_of_work_slot_written [of c e batchNum idx l linkID s rs]
  show ?thesis
  proof
    assume "snd (unit_of_work c e batchNum idx l linkID (s, rs)) = rs"
    then show ?thesis using assms by simp
  next
    assume "\<exists>v. timestamp_inv v \<and>
      snd (unit_of_work c e batchNum idx l linkID (s, rs)) = rs[idx := Some v]"
    then obtain v where v: "timestamp_inv v"
      and eq: "snd (unit_of_work c e batchNum idx l linkID (s, rs)) = rs[idx := Some v]"
      by blast
    have "Some link \<in> insert (Some v) (set rs)"
      using assms(2) eq set_update_subset_insert [of rs idx "Some v"] by auto
    then show ?thesis using v assms(1) by auto
  qed
qed

lemma fan_out_slots:
  "\<forall>link. Some link \<in> set (snd sr) \<longrightarrow> timestamp_inv link \<Longrightarrow>
   Some link \<in> set (snd (fan_out c e batchNum idx xs sr)) \<Longrightarrow>
   timestamp_inv link"
proof (induction xs arbitrary: idx sr)
  case Nil
  then show ?case by simp
next
  case (Cons x xs)
  obtain l linkID where x: "x = (l, linkID)" by (cases x)
  obtain s rs where sr: "sr = (s, rs)" by (cases sr)
  let ?sr' = "unit_of_work c e batchNum idx l linkID (s, rs)"
  have "\<forall>link. Some link \<in> set (snd ?sr') \<longrightarrow> timestamp_inv link"
    using Cons.prems(1) sr unit_of_work_slots [of rs _ c e batchNum idx l linkID s] by auto
  moreover have "Some link \<in> set (snd (fan_out c e batchNum (Suc idx) xs ?sr'))"
    using Cons.prems(2) x sr by simp
  ultimately show ?case using Cons.IH [of ?sr' "Suc idx"] by blast
qed

lemma processLinks_rows:
  "rows_kept_or_stamped (db s) (db (snd (processLinks c e ls batchNum s)))"
proof (cases "create_links c e batchNum ls s")
  case (Pair r s1)
  have a: "rows_kept_or_stamped (db s) (db s1)"
    using create_links_rows [of s c e batchNum ls] Pair by simp
  show ?thesis
  proof (cases r)
    case (Inl err)
    then show ?thesis using Pair a by (simp add: processLinks_eq)
  next
    case (Inr linkIDs)
    let ?sr = "fan_out c e batchNum 0 (zip ls linkIDs) (s1, replicate (length ls) None)"
    have b: "rows_kept_or_stamped (db s1) (db (fst ?sr))"
      using fan_out_rows [of "(s1, replicate (length ls) None)" c e batchNum 0 "zip ls linkIDs"]
      by simp
    have "links (db (snd (processLinks c e ls batchNum s))) = links (db (fst ?sr))"
      using Pair Inr by (simp add: processLinks_eq Let_def UpdateBatchStatus_links)
    then have "rows_kept_or_stamped (db (fst ?sr)) (db (snd (processLinks c e ls batchNum s)))"
      by (rule rows_same_links)
    then show ?thesis using a b rows_trans by blast
  qed
qed

lemma processLinks_slots:
  assumes "fst (processLinks c e ls batchNum s) = Inr rs" and "Some link \<in> set rs"
  shows "timestamp_inv link"
proof (cases "create_links c e batchNum ls s")
  case (Pair r s1)
  show ?thesis
  proof (cases r)
    case (Inl err)
    then show ?thesis using Pair assms(1) by (simp add: processLinks_eq)
  next
    case (Inr linkIDs)
    have "rs = snd (fan_out c e batchNum 0 (zip ls linkIDs) (s1, replicate (length ls) None))"
      using Pair Inr assms(1) by (simp add: processLinks_eq Let_def)
    then show ?thesis
      using assms(2)
        fan_out_slots [of "(s1, replicate (length ls) None)" link c e batchNum 0 "zip ls linkIDs"]
      by simp
  qed
qed

lemma CheckLinks_rows:
  "rows_kept_or_stamped (db s) (db (snd (CheckLinks c e ls s)))"
proof (cases "ls = []")
  case True
  then show ?thesis by (simp add: CheckLinks_def rows_refl)
next
  case False
  show ?thesis
  proof (cases "fate_error (fate c e (clock s))")
    case (Some err)
    then show ?thesis using False by (simp add: CheckLinks_eq rows_refl)
  next
    case None
    let ?n = "go_int (max_batch_num (db s) + 1)"
    let ?r = "CreateBatch (fate c e (Suc (clock s))) ?n BatchStatusProcessing (Suc (clock s)) (db s)"
    let ?s3 = "s\<lparr>clock := Suc (Suc (clock s)), db := snd ?r\<rparr>"
    have l3: "links (db ?s3) = links (db s)" by (simp add: CreateBatch_links)
    show ?thesis
    proof (cases "fst ?r")
      case (Some er)
      then show ?thesis using False None l3
        by (simp add: CheckLinks_eq Let_def rows_same_links)
    next
      case cb: None
      obtain pr s4 where pl: "processLinks c e ls ?n ?s3 = (pr, s4)"
        by (cases "processLinks c e ls ?n ?s3")
      have "rows_kept_or_stamped (db ?s3) (db s4)"
        using processLinks_rows [of ?s3 c e ls ?n] pl by simp
      then have r4: "rows_kept_or_stamped (db s) (db s4)"
        using l3 rows_cong by blast
      have "links (db (snd (CheckLinks c e ls s))) = links (db s4)"
        using False None cb pl
        by (simp add: CheckLinks_eq Let_def UpdateBatchStatus_links split: sum.splits option.splits)
      then show ?thesis using r4 by (simp add: rows_kept_or_stamped_def)
    qed
  qed
qed

lemma create_links_fresh_rows:
  "l \<in> set (links (db (snd (create_links c e batchNum ls s)))) \<Longrightarrow>
   l \<in> set (links (db s)) \<or> (Status l = StatusProcessing \<and> Time l = None)"
proof (induction ls arbitrary: s)
  case Nil
  then show ?case by simp
next
  case (Cons link rest)
  let ?r = "CreateLink (fate c e (clock s)) link StatusProcessing batchNum None (db s)"
  let ?s2 = "s\<lparr>clock := Suc (clock s), db := snd ?r\<rparr>"
  have step: "x \<in> set (links (db ?s2)) \<Longrightarrow>
      x \<in> set (links (db s)) \<or> (Status x = StatusProcessing \<and> Time x = None)" for x
    by (auto simp: CreateLink_def Let_def split: option.splits)
  show ?case
  proof (cases "fst ?r")
    case (Inl err)
    have "l \<in> set (links (db ?s2))"
      using Cons.prems unfolding create_links_Cons_Inl [OF Inl] by simp
    then show ?thesis by (rule step)
  next
    case (Inr linkID)
    obtain r s3 where rs: "create_links c e batchNum rest ?s2 = (r, s3)"
      by (cases "create_links c e batchNum rest ?s2")
    have "l \<in> set (links (db s3))"
      using Cons.prems unfolding create_links_Cons_Inr [OF Inr rs] by simp
    then have "l \<in> set (links (db (snd (create_links c e batchNum rest ?s2))))"
      using rs by simp
    then have "l \<in> set (links (db ?s2)) \<or> (Status l = StatusProcessing \<and> Time l = None)"
      by (rule Cons.IH)
    then show ?thesis using step by blast
  qed
qed

section \<open>Sample runs\<close>

text \<open>
  One address on the empty store with nothing failing and no cancellation: seven
  ticks, batch 1 completed, the link stamped at the instant of its probe.
\<close>

lemma fate_env_ok: "fate None env_ok t = Proceeds"
  by (simp add: fate_def Done_def env_ok_def)

lemma check_env_ok: "checkURLAvailability env_ok t l = StatusAvailable"
  by (simp add: checkURLAvailability_def env_ok_def)

lemma CheckLinks_sample_run:
  "CheckLinks None env_ok [''a''] (NewURLChecker empty_db) =
     (Value \<lparr>Links = [''a'' \<mapsto> ''available''], RespLinksNum = 1\<rparr>,
      \<lparr>db = \<lparr>batches = [\<lparr>LinksNum = 1, BStatus = BatchStatusCompleted, CreatedAt = 1\<rparr>],
              links = [\<lparr>ID = 1, URL = ''a'', Status = StatusAvailable, BatchNum = 1,
                        Time = Some 4\<rparr>],
              link_seq = 1\<rparr>,
       logger = [], tasks = [], pendingPDFTasks = [], shutdown = False, clock = 7\<rparr>)"
  by (simp add: CheckLinks_eq processLinks_eq create_links_Cons unit_of_work_eq
        fate_env_ok check_env_ok Done_def NewURLChecker_def empty_db_def
        max_batch_num_def batch_nums_def go_int_def CreateBatch_def CreateLink_def
        next_link_id_def UpdateLinkStatus_def UpdateBatchStatus_def stamp_def Let_def)

section \<open>C10: timestamps and statuses of link records\<close>

text \<open>
  C10. Every link record the service creates or updates has its timestamp set
  exactly when its status is \<open>available\<close> or \<open>not available\<close>. After a call of
  \<open>CheckLinks\<close>, whatever the context and the environment do, every row of the
  links table is a row that was there before, untouched, or satisfies the
  invariant, so a table that satisfies it keeps satisfying it; the rows put in by
  the first loop of \<open>processLinks\<close> have status \<open>processing\<close> and no timestamp;
  and every record written to a result slot satisfies the invariant.
\<close>

theorem link_timestamp_invariant:
  "rows_kept_or_stamped (db s) (db (snd (CheckLinks c e ls s))) \<and>
   ((\<forall>l \<in> set (links (db s)). timestamp_inv l) \<longrightarrow>
    (\<forall>l \<in> set (links (db (snd (CheckLinks c e ls s)))). timestamp_inv l)) \<and>
   (\<forall>l \<in> set (links (db (snd (create_links c e batchNum ls s)))).
      l \<in> set (links (db s)) \<or> (Status l = StatusProcessing \<and> Time l = None)) \<and>
   (\<forall>rs link. fst (processLinks c e ls batchNum s) = Inr rs \<longrightarrow> Some link \<in> set rs \<longrightarrow>
      timestamp_inv link)"
proof (intro conjI)
  show kept: "rows_kept_or_stamped (db s) (db (snd (CheckLinks c e ls s)))"
    by (rule CheckLinks_rows)
  show "(\<forall>l \<in> set (links (db s)). timestamp_inv l) \<longrightarrow>
    (\<forall>l \<in> set (links (db (snd (CheckLinks c e ls s)))). timestamp_inv l)"
    using kept by (auto simp: rows_kept_or_stamped_def)
  show "\<forall>l \<in> set (links (db (snd (create_links c e batchNum ls s)))).
      l \<in> set (links (db s)) \<or> (Status l = StatusProcessing \<and> Time l = None)"
    using create_links_fresh_rows by blast
  show "\<forall>rs link. fst (processLinks c e ls batchNum s) = Inr rs \<longrightarrow> Some link \<in> set rs \<longrightarrow>
      timestamp_inv link"
    using processLinks_slots by blast
qed

theorem link_timestamp_invariant_witness:
  "links (db (snd (CheckLinks None env_ok [''a''] (NewURLChecker empty_db)))) =
     [\<lparr>ID = 1, URL = ''a'', Status = StatusAvailable, BatchNum = 1, Time = Some 4\<rparr>] \<and>
   links (db (NewURLChecker empty_db)) = [] \<and>
   timestamp_inv \<lparr>ID = 1, URL = ''a'', Status = StatusAvailable, BatchNum = 1, Time = Some 4\<rparr>"
proof -
  let ?s = "NewURLChecker empty_db"
  let ?l = "\<lparr>ID = 1, URL = ''a'', Status = StatusAvailable, BatchNum = 1, Time = Some 4\<rparr>"
  have after: "links (db (snd (CheckLinks None env_ok [''a''] ?s))) = [?l]"
    by (simp add: CheckLinks_sample_run)
  have before: "links (db ?s) = []"
    by (simp add: NewURLChecker_def empty_db_def)
  have "rows_kept_or_stamped (db ?s) (db (snd (CheckLinks None env_ok [''a''] ?s)))"
    using link_timestamp_invariant [of ?s None env_ok "[''a'']" 1] by blast
  then have "timestamp_inv ?l"
    unfolding rows_kept_or_stamped_def after before by simp
  then show ?thesis using after before by simp
qed

section \<open>Batch rows are only added by \<open>CreateBatch\<close>\<close>

lemma CreateLink_batches: "batches (snd (CreateLink f url status batchNum tm d)) = batches d"
  by (simp add: CreateLink_def Let_def split: option.splits)

lemma UpdateLinkStatus_batches: "batches (snd (UpdateLinkStatus f i status tm d)) = batches d"
  by (simp add: UpdateLinkStatus_def split: option.splits)

lemma UpdateBatchStatus_batch_nums:
  "batch_nums (snd (UpdateBatchStatus f n status d)) = batch_nums d"
  by (simp add: UpdateBatchStatus_def batch_nums_def comp_def split: option.splits)

lemma create_links_batches:
  "batches (db (snd (create_links c e batchNum ls s))) = batches (db s)"
proof (induction ls arbitrary: s)
  case Nil
  show ?case by simp
next
  case (Cons link rest)
  let ?r = "CreateLink (fate c e (clock s)) link StatusProcessing batchNum None (db s)"
  let ?s2 = "s\<lparr>clock := Suc (clock s), db := snd ?r\<rparr>"
  have step: "batches (db ?s2) = batches (db s)"
    by (simp add: CreateLink_batches)
  show ?case
  proof (cases "fst ?r")
    case (Inl err)
    show ?thesis
      unfolding create_links_Cons_Inl [OF Inl] using step by simp
  next
    case (Inr linkID)
    obtain r s3 where rs: "create_links c e batchNum rest ?s2 = (r, s3)"
      by (cases "create_links c e batchNum rest ?s2")
    have "batches (db s3) = batches (db ?s2)"
      using Cons.IH [of ?s2] rs by simp
    then show ?thesis
      unfolding create_links_Cons_Inr [OF Inr rs] using step by simp
  qed
qed

lemma unit_of_work_batches:
  "batches (db (fst (unit_of_work c e batchNum idx l linkID (s, rs)))) = batches (db s)"
  by (simp add: unit_of_work_eq Let_def UpdateLinkStatus_batches)

lemma fan_out_batches:
  "batches (db (fst (fan_out c e batchNum idx xs sr))) = batches (db (fst sr))"
proof (induction xs arbitrary: idx sr)
  case Nil
  show ?case by simp
next
  case (Cons x xs)
  obtain l linkID where x: "x = (l, linkID)" by (cases x)
  obtain s rs where sr: "sr = (s, rs)" by (cases sr)
  show ?case
    using Cons.IH [of "Suc idx" "unit_of_work c e batchNum idx l linkID (s, rs)"]
      unit_of_work_batches [of c e batchNum idx l linkID s rs] x sr
    by simp
qed

lemma processLinks_batch_nums:
  "batch_nums (db (snd (processLinks c e ls batchNum s))) = batch_nums (db s)"
proof (cases "create_links c e batchNum ls s")
  case (Pair r s1)
  have a: "batches (db s1) = batches (db s)"
    using create_links_batches [of c e batchNum ls s] Pair by simp
  show ?thesis
  proof (cases r)
    case (Inl err)
    then show ?thesis using Pair a by (simp add: processLinks_eq batch_nums_def)
  next
    case (Inr linkIDs)
    let ?sr = "fan_out c e batchNum 0 (zip ls linkIDs) (s1, replicate (length ls) None)"
    have b: "batches (db (fst ?sr)) = batches (db s1)"
      using fan_out_batches [of c e batchNum 0 "zip ls linkIDs" "(s1, replicate (length ls) None)"]
      by simp
    have "batch_nums (db (snd (processLinks c e ls batchNum s))) = batch_nums (db (fst ?sr))"
      using Pair Inr by (simp add: processLinks_eq Let_def UpdateBatchStatus_batch_nums)
    then show ?thesis using a b by (simp add: batch_nums_def)
  qed
qed

section \<open>The maximum and the next number\<close>

lemma max_batch_num_ge: "n \<in> set (batch_nums d) \<Longrightarrow> n \<le> max_batch_num d"
proof (cases "batch_nums d")
  case Nil
  then show "n \<in> set (batch_nums d) \<Longrightarrow> n \<le> max_batch_num d" by simp
next
  case (Cons m ms)
  assume n: "n \<in> set (batch_nums d)"
  have "max_batch_num d = Max (set (m # ms))"
    using Cons Max.set_eq_fold [of m ms] by (simp add: max_batch_num_def)
  then show "n \<le> max_batch_num d" using n Cons by simp
qed

lemma max_batch_num_mem: "batch_nums d \<noteq> [] \<Longrightarrow> max_batch_num d \<in> set (batch_nums d)"
proof (cases "batch_nums d")
  case Nil
  then show "batch_nums d \<noteq> [] \<Longrightarrow> max_batch_num d \<in> set (batch_nums d)" by simp
next
  case (Cons m ms)
  have "max_batch_num d = Max (set (m # ms))"
    using Cons Max.set_eq_fold [of m ms] by (simp add: max_batch_num_def)
  moreover have "Max (set (m # ms)) \<in> set (m # ms)"
    by (rule Max_in) simp_all
  ultimately show "max_batch_num d \<in> set (batch_nums d)" using Cons by simp
qed

lemma max_batch_num_empty: "batches d = [] \<Longrightarrow> max_batch_num d = 0"
  by (simp add: max_batch_num_def batch_nums_def)

lemma go_int_id: "int64 x \<Longrightarrow> go_int x = x"
  by (simp add: go_int_def int64_def)

lemma go_int_range: "int64 (go_int x)"
  by (simp add: go_int_def int64_def)

lemma int64_max_batch_num:
  "\<forall>n \<in> set (batch_nums d). int64 n \<Longrightarrow> int64 (max_batch_num d)"
proof (cases "batch_nums d = []")
  case True
  then show ?thesis by (simp add: max_batch_num_def int64_def)
next
  case False
  assume "\<forall>n \<in> set (batch_nums d). int64 n"
  then show ?thesis using max_batch_num_mem [OF False] by blast
qed

lemma next_number_exact:
  assumes "\<forall>n \<in> set (batch_nums d). int64 n" and "max_batch_num d < 2 ^ 63 - 1"
  shows "go_int (max_batch_num d + 1) = max_batch_num d + 1"
proof -
  have "int64 (max_batch_num d)" using assms(1) by (rule int64_max_batch_num)
  then have "int64 (max_batch_num d + 1)" using assms(2) by (simp add: int64_def)
  then show ?thesis by (rule go_int_id)
qed

lemma next_number_fresh: "max_batch_num d + 1 \<notin> set (batch_nums d)"
  using max_batch_num_ge [of "max_batch_num d + 1" d] by auto

section \<open>C4: the number a batch is given\<close>

lemma CreateBatch_Proceeds_fresh:
  "n \<notin> set (batch_nums d) \<Longrightarrow>
   CreateBatch Proceeds n status t d =
     (None, d\<lparr>batches := batches d @ [\<lparr>LinksNum = n, BStatus = status, CreatedAt = t\<rparr>]\<rparr>)"
  by (simp add: CreateBatch_def)

lemma batch_nums_admitted: "batch_nums (db (admitted s)) = batch_nums (db s) @ [next_batch_num s]"
  by (simp add: admitted_def batch_nums_def)

lemma clock_admitted: "clock (admitted s) = Suc (Suc (clock s))"
  by (simp add: admitted_def)

lemma links_admitted: "links (db (admitted s)) = links (db s)"
  by (simp add: admitted_def)

text \<open>
  Once the maximum is read and the batch row is in, \<open>CheckLinks\<close> is \<open>processLinks\<close>
  on the admitted state followed by the assembly of the response.
\<close>

lemma CheckLinks_admitted:
  assumes "ls \<noteq> []"
    and "fate c e (clock s) = Proceeds"
    and "fate c e (Suc (clock s)) = Proceeds"
    and "next_batch_num s \<notin> set (batch_nums (db s))"
  shows "CheckLinks c e ls s =
     (case processLinks c e ls (next_batch_num s) (admitted s) of
        (Inl er, s4) \<Rightarrow>
          (Failure (Wrap ''failed to process links'' er),
           s4\<lparr>clock := Suc (clock s4),
              db := snd (UpdateBatchStatus (fate c e (clock s4)) (next_batch_num s)
                           BatchStatusFailed (db s4))\<rparr>)
      | (Inr processedLinks, s4) \<Rightarrow>
          (case assemble processedLinks Map.empty of
             None \<Rightarrow> (Panic, s4)
           | Some resultLinks \<Rightarrow>
               (Value \<lparr>Links = resultLinks, RespLinksNum = next_batch_num s\<rparr>, s4)))"
proof -
  have cb: "CreateBatch Proceeds (next_batch_num s) BatchStatusProcessing (Suc (clock s)) (db s) =
      (None, (db s)\<lparr>batches := batches (db s) @
         [\<lparr>LinksNum = next_batch_num s, BStatus = BatchStatusProcessing,
           CreatedAt = Suc (clock s)\<rparr>]\<rparr>)"
    using assms(4) by (rule CreateBatch_Proceeds_fresh)
  show ?thesis
    unfolding CheckLinks_eq [OF assms(1)] assms(2) assms(3)
    by (simp add: Let_def cb next_batch_num_def [symmetric] admitted_def [symmetric])
qed

lemma CheckLinks_admitted_batch_nums:
  assumes "ls \<noteq> []"
    and "fate c e (clock s) = Proceeds"
    and "fate c e (Suc (clock s)) = Proceeds"
    and "next_batch_num s \<notin> set (batch_nums (db s))"
  shows "batch_nums (db (snd (CheckLinks c e ls s))) = batch_nums (db s) @ [next_batch_num s]"
proof -
  obtain pr s4 where pl: "processLinks c e ls (next_batch_num s) (admitted s) = (pr, s4)"
    by (cases "processLinks c e ls (next_batch_num s) (admitted s)")
  have "batch_nums (db s4) = batch_nums (db (admitted s))"
    using processLinks_batch_nums [of c e ls "next_batch_num s" "admitted s"] pl by simp
  then have s4: "batch_nums (db s4) = batch_nums (db s) @ [next_batch_num s]"
    by (simp add: batch_nums_admitted)
  show ?thesis
  proof (cases pr)
    case (Inl er)
    then show ?thesis
      unfolding CheckLinks_admitted [OF assms] pl
      using s4 by (simp add: UpdateBatchStatus_batch_nums)
  next
    case (Inr processedLinks)
    then show ?thesis
      unfolding CheckLinks_admitted [OF assms] pl
      using s4 by (simp split: option.splits)
  qed
qed

lemma CheckLinks_admitted_number:
  assumes "ls \<noteq> []"
    and "fate c e (clock s) = Proceeds"
    and "fate c e (Suc (clock s)) = Proceeds"
    and "next_batch_num s \<notin> set (batch_nums (db s))"
    and "fst (CheckLinks c e ls s) = Value r"
  shows "RespLinksNum r = next_batch_num s"
proof -
  obtain pr s4 where pl: "processLinks c e ls (next_batch_num s) (admitted s) = (pr, s4)"
    by (cases "processLinks c e ls (next_batch_num s) (admitted s)")
  show ?thesis
    using assms(5) unfolding CheckLinks_admitted [OF assms(1-4)] pl
    by (cases pr) (auto split: option.splits)
qed

text \<open>
  C4, as the code has it. For a non-empty address list, on a store whose batch
  numbers are 64-bit integers with maximum below \<open>2^63 - 1\<close>, when the read of the
  maximum and the insertion go through: \<open>getNextID\<close> returns the maximum plus one
  (the maximum of the empty store being 0, so the first number is 1), that number
  is strictly greater than every batch number in the store, and it is the number
  of the batch row \<open>CheckLinks\<close> adds and of the response it returns. At the
  maximum \<open>2^63 - 1\<close> the sum wraps around; see the counterexample.
\<close>

theorem CheckLinks_allocates_max_plus_one:
  assumes "ls \<noteq> []"
    and "fate c e (clock s) = Proceeds"
    and "fate c e (Suc (clock s)) = Proceeds"
    and "\<forall>n \<in> set (batch_nums (db s)). int64 n"
    and "max_batch_num (db s) < 2 ^ 63 - 1"
  shows "fst (getNextID c e s) = Inr (max_batch_num (db s) + 1) \<and>
         (\<forall>n \<in> set (batch_nums (db s)). n < max_batch_num (db s) + 1) \<and>
         (batches (db s) = [] \<longrightarrow> max_batch_num (db s) + 1 = 1) \<and>
         batch_nums (db (snd (CheckLinks c e ls s))) =
           batch_nums (db s) @ [max_batch_num (db s) + 1] \<and>
         (\<forall>r. fst (CheckLinks c e ls s) = Value r \<longrightarrow> RespLinksNum r = max_batch_num (db s) + 1)"
proof -
  have nx: "next_batch_num s = max_batch_num (db s) + 1"
    unfolding next_batch_num_def using assms(4) assms(5) by (rule next_number_exact)
  have fresh: "next_batch_num s \<notin> set (batch_nums (db s))"
    unfolding nx by (rule next_number_fresh)
  have "fst (getNextID c e s) = Inr (max_batch_num (db s) + 1)"
    using assms(2) nx by (simp add: getNextID_eq next_batch_num_def)
  moreover have "\<forall>n \<in> set (batch_nums (db s)). n < max_batch_num (db s) + 1"
    using max_batch_num_ge [of _ "db s"] by fastforce
  moreover have "batches (db s) = [] \<longrightarrow> max_batch_num (db s) + 1 = 1"
    by (simp add: max_batch_num_empty)
  moreover have "batch_nums (db (snd (CheckLinks c e ls s))) =
      batch_nums (db s) @ [max_batch_num (db s) + 1]"
    using CheckLinks_admitted_batch_nums [OF assms(1) assms(2) assms(3) fresh] nx by simp
  moreover have "\<forall>r. fst (CheckLinks c e ls s) = Value r \<longrightarrow>
      RespLinksNum r = max_batch_num (db s) + 1"
    using CheckLinks_admitted_number [OF assms(1) assms(2) assms(3) fresh] nx by simp
  ultimately show ?thesis by blast
qed

theorem CheckLinks_allocates_max_plus_one_witness:
  "fst (getNextID None env_ok (NewURLChecker empty_db)) = Inr 1 \<and>
   batch_nums (db (snd (CheckLinks None env_ok [''a''] (NewURLChecker empty_db)))) = [1] \<and>
   max_batch_num (db (NewURLChecker empty_db)) = 0"
proof -
  let ?s = "NewURLChecker empty_db"
  have m: "max_batch_num (db ?s) = 0" and b: "batch_nums (db ?s) = []"
    by (simp_all add: max_batch_num_def batch_nums_def NewURLChecker_def empty_db_def)
  have h1: "[''a''] \<noteq> []" by simp
  have h2: "fate None env_ok (clock ?s) = Proceeds" by (rule fate_env_ok)
  have h3: "fate None env_ok (Suc (clock ?s)) = Proceeds" by (rule fate_env_ok)
  have h4: "\<forall>n \<in> set (batch_nums (db ?s)). int64 n" using b by simp
  have h5: "max_batch_num (db ?s) < 2 ^ 63 - 1" using m by simp
  show ?thesis
    using CheckLinks_allocates_max_plus_one [OF h1 h2 h3 h4 h5] m b by simp
qed

text \<open>
  The claim as stated, for every store: on the store whose batch has number
  \<open>2^63 - 1\<close> the number allocated is \<open>- 2^63\<close>, the batch row is added under it,
  and it is smaller than the number already there.
\<close>

theorem CheckLinks_allocation_wraps_counterexample:
  "fst (getNextID None env_ok (NewURLChecker db_max)) = Inr (- 9223372036854775808) \<and>
   batch_nums (db (snd (CheckLinks None env_ok [''a''] (NewURLChecker db_max)))) =
     [9223372036854775807, - 9223372036854775808] \<and>
   max_batch_num db_max = 9223372036854775807 \<and>
   \<not> ((9223372036854775807 :: int) < - 9223372036854775808)"
proof -
  let ?s = "NewURLChecker db_max"
  have m: "max_batch_num (db ?s) = 9223372036854775807"
    and b: "batch_nums (db ?s) = [9223372036854775807]"
    by (simp_all add: max_batch_num_def batch_nums_def NewURLChecker_def db_max_def)
  have nx: "next_batch_num ?s = - 9223372036854775808"
    by (simp add: next_batch_num_def m go_int_def)
  have fresh: "next_batch_num ?s \<notin> set (batch_nums (db ?s))"
    by (simp add: nx b)
  have h1: "[''a''] \<noteq> []" by simp
  have h2: "fate None env_ok (clock ?s) = Proceeds" by (rule fate_env_ok)
  have h3: "fate None env_ok (Suc (clock ?s)) = Proceeds" by (rule fate_env_ok)
  have "fst (getNextID None env_ok ?s) = Inr (- 9223372036854775808)"
    using nx by (simp add: getNextID_eq fate_env_ok next_batch_num_def)
  moreover have "batch_nums (db (snd (CheckLinks None env_ok [''a''] ?s))) =
      [9223372036854775807, - 9223372036854775808]"
    using CheckLinks_admitted_batch_nums [OF h1 h2 h3 fresh] nx b by simp
  moreover have "max_batch_num db_max = 9223372036854775807"
    using m by (simp add: NewURLChecker_def)
  ultimately show ?thesis by simp
qed

section \<open>Cancellation between the link rows and the fan-out\<close>

lemma CreateLink_Proceeds:
  "CreateLink Proceeds url status batchNum tm d =
     (Inr (next_link_id d),
      d\<lparr>links := links d @
           [\<lparr>ID = next_link_id d, URL = url, Status = status, BatchNum = batchNum, Time = tm\<rparr>],
        link_seq := next_link_id d\<rparr>)"
  by (simp add: CreateLink_def Let_def)

lemma create_links_Proceeds:
  "\<forall>k < length ls. fate c e (clock s + k) = Proceeds \<Longrightarrow>
   \<exists>linkIDs s1. create_links c e batchNum ls s = (Inr linkIDs, s1) \<and>
      length linkIDs = length ls \<and> clock s1 = clock s + length ls \<and> logger s1 = logger s"
proof (induction ls arbitrary: s)
  case Nil
  show ?case by simp
next
  case (Cons link rest)
  have f0: "fate c e (clock s) = Proceeds"
    using Cons.prems by (metis add.right_neutral length_greater_0_conv list.distinct(1))
  let ?r = "CreateLink (fate c e (clock s)) link StatusProcessing batchNum None (db s)"
  let ?s2 = "s\<lparr>clock := Suc (clock s), db := snd ?r\<rparr>"
  have r: "fst ?r = Inr (next_link_id (db s))"
    by (simp add: f0 CreateLink_Proceeds)
  have "\<forall>k < length rest. fate c e (clock ?s2 + k) = Proceeds"
  proof (intro allI impI)
    fix k assume "k < length rest"
    then have "Suc k < length (link # rest)" by simp
    then have "fate c e (clock s + Suc k) = Proceeds" using Cons.prems by blast
    then show "fate c e (clock ?s2 + k) = Proceeds" by simp
  qed
  then obtain linkIDs s3 where rest: "create_links c e batchNum rest ?s2 = (Inr linkIDs, s3)"
    and len: "length linkIDs = length rest"
    and clk: "clock s3 = clock ?s2 + length rest"
    and lg: "logger s3 = logger ?s2"
    using Cons.IH [of ?s2] by blast
  have "create_links c e batchNum (link # rest) s = (Inr (next_link_id (db s) # linkIDs), s3)"
    unfolding create_links_Cons_Inr [OF r rest] by simp
  then show ?case using len clk lg by simp
qed

lemma unit_of_work_Done:
  "Done c (clock s) \<Longrightarrow>
   unit_of_work c e batchNum idx l linkID (s, rs) = (s\<lparr>clock := Suc (clock s)\<rparr>, rs)"
  by (simp add: unit_of_work_eq)

lemma fan_out_Done:
  "Done c (clock s) \<Longrightarrow>
   fan_out c e batchNum idx xs (s, rs) = (s\<lparr>clock := clock s + length xs\<rparr>, rs)"
proof (induction xs arbitrary: idx s)
  case Nil
  show ?case by simp
next
  case (Cons x xs)
  obtain l linkID where x: "x = (l, linkID)" by (cases x)
  have d': "Done c (clock (s\<lparr>clock := Suc (clock s)\<rparr>))"
    using Cons.prems Done_mono [of c "clock s" "Suc (clock s)"] by simp
  have "fan_out c e batchNum idx (x # xs) (s, rs) =
      fan_out c e batchNum (Suc idx) xs (s\<lparr>clock := Suc (clock s)\<rparr>, rs)"
    using x unit_of_work_Done [OF Cons.prems] by simp
  also have "\<dots> = (s\<lparr>clock := Suc (clock s)\<rparr>\<lparr>clock := clock (s\<lparr>clock := Suc (clock s)\<rparr>) + length xs\<rparr>, rs)"
    by (rule Cons.IH [OF d'])
  finally show ?case by simp
qed

lemma assemble_nil_slot: "None \<in> set rs \<Longrightarrow> assemble rs m = None"
  by (induction rs m rule: assemble.induct) auto

lemma processLinks_Done_after_rows:
  assumes "\<forall>k < length ls. fate c e (clock s + k) = Proceeds"
    and "Done c (clock s + length ls)"
  shows "\<exists>s4. processLinks c e ls batchNum s = (Inr (replicate (length ls) None), s4)"
proof -
  obtain linkIDs s1 where cl: "create_links c e batchNum ls s = (Inr linkIDs, s1)"
    and clk: "clock s1 = clock s + length ls"
    using create_links_Proceeds [OF assms(1), of batchNum] by blast
  have d1: "Done c (clock s1)" using assms(2) clk by simp
  show ?thesis
    unfolding processLinks_eq cl
    by (simp add: fan_out_Done [OF d1] Let_def)
qed

section \<open>C2: a cancelled fan-out leaves nil slots\<close>

text \<open>
  C2. For a non-empty address list, when the allocation, the batch row and every
  link row go through and the context is done at the tick at which the fan-out
  starts: a unit that finds the context done returns without writing its slot,
  \<open>processLinks\<close> returns no error and a results slice of nil entries only, and
  the assembly loop of \<open>CheckLinks\<close> dereferences a nil slot: the call panics
  instead of returning an error.
\<close>

theorem cancelled_fan_out_panics:
  assumes "ls \<noteq> []"
    and "\<forall>k < length ls + 2. fate c e (clock s + k) = Proceeds"
    and "next_batch_num s \<notin> set (batch_nums (db s))"
    and "Done c (clock s + length ls + 2)"
  shows "(\<forall>batchNum idx l linkID s' rs. Done c (clock s') \<longrightarrow>
            snd (unit_of_work c e batchNum idx l linkID (s', rs)) = rs) \<and>
         (\<exists>s4. processLinks c e ls (next_batch_num s) (admitted s) =
                  (Inr (replicate (length ls) None), s4) \<and>
               CheckLinks c e ls s = (Panic, s4))"
proof
  show "\<forall>batchNum idx l linkID s' rs. Done c (clock s') \<longrightarrow>
      snd (unit_of_work c e batchNum idx l linkID (s', rs)) = rs"
    by (simp add: unit_of_work_Done)
next
  have f0: "fate c e (clock s) = Proceeds"
    using assms(2) by (metis add.right_neutral add_2_eq_Suc' zero_less_Suc)
  have f1: "fate c e (Suc (clock s)) = Proceeds"
  proof -
    have "(1::nat) < length ls + 2" by simp
    then have "fate c e (clock s + 1) = Proceeds" using assms(2) by blast
    then show ?thesis by simp
  qed
  have rows: "\<forall>k < length ls. fate c e (clock (admitted s) + k) = Proceeds"
  proof (intro allI impI)
    fix k assume "k < length ls"
    then have "k + 2 < length ls + 2" by simp
    then have "fate c e (clock s + (k + 2)) = Proceeds" using assms(2) by blast
    then show "fate c e (clock (admitted s) + k) = Proceeds"
      by (simp add: clock_admitted)
  qed
  have dn: "Done c (clock (admitted s) + length ls)"
    using assms(4) by (simp add: clock_admitted add.commute)
  obtain s4 where pl: "processLinks c e ls (next_batch_num s) (admitted s) =
      (Inr (replicate (length ls) None), s4)"
    using processLinks_Done_after_rows [OF rows dn] by blast
  have "None \<in> set (replicate (length ls) (None :: Link option))"
    using assms(1) by simp
  then have "assemble (replicate (length ls) None) Map.empty = None"
    by (rule assemble_nil_slot)
  then have "CheckLinks c e ls s = (Panic, s4)"
    unfolding CheckLinks_admitted [OF assms(1) f0 f1 assms(3)] pl by simp
  then show "\<exists>s4. processLinks c e ls (next_batch_num s) (admitted s) =
      (Inr (replicate (length ls) None), s4) \<and> CheckLinks c e ls s = (Panic, s4)"
    using pl by blast
qed

theorem cancelled_fan_out_panics_witness:
  "fst (CheckLinks (Some 4) env_ok [''a'', ''b''] (NewURLChecker empty_db)) = Panic \<and>
   fst (processLinks (Some 4) env_ok [''a'', ''b''] 1 (admitted (NewURLChecker empty_db))) =
     Inr [None, None]"
proof -
  let ?s = "NewURLChecker empty_db"
  have nx: "next_batch_num ?s = 1"
    by (simp add: next_batch_num_def max_batch_num_def batch_nums_def go_int_def
          NewURLChecker_def empty_db_def)
  have h1: "[''a'', ''b''] \<noteq> []" by simp
  have h2: "\<forall>k < length [''a'', ''b''] + 2. fate (Some 4) env_ok (clock ?s + k) = Proceeds"
    by (simp add: fate_def Done_def env_ok_def NewURLChecker_def)
  have h3: "next_batch_num ?s \<notin> set (batch_nums (db ?s))"
    by (simp add: batch_nums_def NewURLChecker_def empty_db_def)
  have h4: "Done (Some 4) (clock ?s + length [''a'', ''b''] + 2)"
    by (simp add: Done_def NewURLChecker_def)
  from cancelled_fan_out_panics [OF h1 h2 h3 h4]
  obtain s4 where "processLinks (Some 4) env_ok [''a'', ''b''] (next_batch_num ?s) (admitted ?s) =
      (Inr (replicate (length [''a'', ''b'']) None), s4)"
    and "CheckLinks (Some 4) env_ok [''a'', ''b''] ?s = (Panic, s4)"
    by blast
  then show ?thesis using nx by (simp add: numeral_2_eq_2)
qed

section \<open>C1: cancellation before any unit completes\<close>

text \<open>
  C1. The claim: a call of \<open>CheckLinks\<close> whose context is cancelled before any unit
  completes returns a cancellation error and leaves every link row of the batch
  \<open>processing\<close>. The code at one such input: one address on the empty store, the
  context cancelled at tick 3, after the allocation (tick 0), the batch row (tick
  1) and the link row (tick 2) and before the first check of the only unit. The
  link row is left \<open>processing\<close> with no timestamp and the batch row stays
  \<open>processing\<close> (its update to \<open>completed\<close> fails on the cancelled context and is
  logged), but the call does not return an error: it panics on the nil slot.
\<close>

theorem CheckLinks_cancelled_before_units_panics:
  "CheckLinks (Some 3) env_ok [''a''] (NewURLChecker empty_db) =
     (Panic,
      \<lparr>db = \<lparr>batches = [\<lparr>LinksNum = 1, BStatus = BatchStatusProcessing, CreatedAt = 1\<rparr>],
              links = [\<lparr>ID = 1, URL = ''a'', Status = StatusProcessing, BatchNum = 1,
                        Time = None\<rparr>],
              link_seq = 1\<rparr>,
       logger = [FailedToUpdateBatchStatus (Wrap ''failed to update batch status'' ContextErr)],
       tasks = [], pendingPDFTasks = [], shutdown = False, clock = 5\<rparr>)"
  by (simp add: CheckLinks_eq processLinks_eq create_links_Cons unit_of_work_eq
        fate_def Done_def env_ok_def NewURLChecker_def empty_db_def
        max_batch_num_def batch_nums_def go_int_def CreateBatch_def CreateLink_def
        next_link_id_def UpdateBatchStatus_def Let_def)

section \<open>A fan-out that runs to completion\<close>


lemma fate_not_Done: "\<not> Done c t \<Longrightarrow> fate c e t = Proceeds \<or> fate c e t = Faults"
  by (simp add: fate_def)






















section \<open>C9: a failed link update does not fail the batch\<close>




section \<open>C8: the report builder\<close>

lemma GeneratePDFReport_eq:
  "GeneratePDFReport c e batchIDs s =
     (case GetBatchesByIDs (fate c e (clock s)) (fate c e (Suc (clock s))) batchIDs (db s) of
        Inl err \<Rightarrow> Inl (Wrap ''failed to get batches data'' err)
      | Inr (bs, ls) \<Rightarrow>
          if bs = [] then Inl NoValidBatchesFound
          else (case pdf_Output e (render (Suc (Suc (clock s))) bs ls) of
                  Some err \<Rightarrow> Inl err
                | None \<Rightarrow> Inr (render (Suc (Suc (clock s))) bs ls)),
      s\<lparr>clock := Suc (Suc (clock s))\<rparr>)"
  by (simp add: GeneratePDFReport_def statement_def Let_def
        split: sum.splits prod.splits option.splits)

lemma GetBatchesByIDs_Proceeds:
  "batchIDs \<noteq> [] \<Longrightarrow>
   GetBatchesByIDs Proceeds Proceeds batchIDs d =
     Inr (sort_key LinksNum (filter (\<lambda>b. LinksNum b \<in> set batchIDs) (batches d)),
          sort_key BatchNum (sort_key ID (filter (\<lambda>l. BatchNum l \<in> set batchIDs) (links d))))"
  by (simp add: GetBatchesByIDs_def)

lemma found_batches_empty:
  "(sort_key LinksNum (filter (\<lambda>b. LinksNum b \<in> set batchIDs) (batches d)) = []) =
   (set batchIDs \<inter> set (batch_nums d) = {})"
proof -
  have "(sort_key LinksNum (filter (\<lambda>b. LinksNum b \<in> set batchIDs) (batches d)) = []) =
      (filter (\<lambda>b. LinksNum b \<in> set batchIDs) (batches d) = [])"
    by (metis length_0_conv length_sort)
  also have "\<dots> = (set batchIDs \<inter> set (batch_nums d) = {})"
    by (auto simp: filter_empty_conv batch_nums_def)
  finally show ?thesis .
qed

lemma found_batches_nums:
  "set (map LinksNum (sort_key LinksNum (filter (\<lambda>b. LinksNum b \<in> set batchIDs) (batches d)))) =
   set batchIDs \<inter> set (batch_nums d)"
  by (auto simp: batch_nums_def)

lemma render_sections:
  "map (\<lambda>sec. LinksNum (batch sec)) (sections (render now bs ls)) = map LinksNum bs"
  by (simp add: render_def comp_def)

text \<open>
  C8. \<open>GeneratePDFReport\<close> fails with the error of \<open>GetBatchesByIDs\<close>, wrapped,
  when the list of batch numbers is empty. When the list is not empty and both
  reads go through, it fails with \<open>no valid batches found\<close> if no requested
  number is the number of a batch in the store; and if at least one is, and the
  PDF library reports no error, it succeeds, and the report has a section for
  exactly the requested numbers that are in the store: the others are left out
  without an error.
\<close>

theorem GeneratePDFReport_contract:
  "fst (GeneratePDFReport c e [] s) = Inl (Wrap ''failed to get batches data'' NoBatchIDsProvided) \<and>
   (batchIDs \<noteq> [] \<and> fate c e (clock s) = Proceeds \<and> fate c e (Suc (clock s)) = Proceeds \<and>
    set batchIDs \<inter> set (batch_nums (db s)) = {} \<longrightarrow>
      fst (GeneratePDFReport c e batchIDs s) = Inl NoValidBatchesFound) \<and>
   (batchIDs \<noteq> [] \<and> fate c e (clock s) = Proceeds \<and> fate c e (Suc (clock s)) = Proceeds \<and>
    set batchIDs \<inter> set (batch_nums (db s)) \<noteq> {} \<and> (\<forall>pdf. pdf_Output e pdf = None) \<longrightarrow>
      (\<exists>pdf. fst (GeneratePDFReport c e batchIDs s) = Inr pdf \<and>
         set (map (\<lambda>sec. LinksNum (batch sec)) (sections pdf)) =
           set batchIDs \<inter> set (batch_nums (db s))))"
proof (intro conjI impI)
  show "fst (GeneratePDFReport c e [] s) =
      Inl (Wrap ''failed to get batches data'' NoBatchIDsProvided)"
    by (simp add: GeneratePDFReport_eq GetBatchesByIDs_def)
next
  assume h: "batchIDs \<noteq> [] \<and> fate c e (clock s) = Proceeds \<and>
      fate c e (Suc (clock s)) = Proceeds \<and> set batchIDs \<inter> set (batch_nums (db s)) = {}"
  then have "sort_key LinksNum (filter (\<lambda>b. LinksNum b \<in> set batchIDs) (batches (db s))) = []"
    by (simp add: found_batches_empty)
  then show "fst (GeneratePDFReport c e batchIDs s) = Inl NoValidBatchesFound"
    using h by (simp add: GeneratePDFReport_eq GetBatchesByIDs_Proceeds)
next
  assume h: "batchIDs \<noteq> [] \<and> fate c e (clock s) = Proceeds \<and>
      fate c e (Suc (clock s)) = Proceeds \<and> set batchIDs \<inter> set (batch_nums (db s)) \<noteq> {} \<and>
      (\<forall>pdf. pdf_Output e pdf = None)"
  let ?bs = "sort_key LinksNum (filter (\<lambda>b. LinksNum b \<in> set batchIDs) (batches (db s)))"
  let ?ls = "sort_key BatchNum (sort_key ID (filter (\<lambda>l. BatchNum l \<in> set batchIDs) (links (db s))))"
  let ?pdf = "render (Suc (Suc (clock s))) ?bs ?ls"
  have ne: "?bs \<noteq> []" using h by (simp add: found_batches_empty)
  have "fst (GeneratePDFReport c e batchIDs s) = Inr ?pdf"
    using h ne by (simp add: GeneratePDFReport_eq GetBatchesByIDs_Proceeds)
  moreover have "set (map (\<lambda>sec. LinksNum (batch sec)) (sections ?pdf)) =
      set batchIDs \<inter> set (batch_nums (db s))"
    unfolding render_sections by (rule found_batches_nums)
  ultimately show "\<exists>pdf. fst (GeneratePDFReport c e batchIDs s) = Inr pdf \<and>
      set (map (\<lambda>sec. LinksNum (batch sec)) (sections pdf)) =
        set batchIDs \<inter> set (batch_nums (db s))"
    by blast
qed

lemma pdf_Output_env_ok: "pdf_Output env_ok pdf = None"
  by (simp add: env_ok_def)

theorem GeneratePDFReport_contract_witness:
  "fst (GeneratePDFReport None env_ok [999] (NewURLChecker empty_db)) = Inl NoValidBatchesFound \<and>
   (\<exists>pdf. fst (GeneratePDFReport None env_ok [1, 999] (NewURLChecker db_one)) = Inr pdf \<and>
      set (map (\<lambda>sec. LinksNum (batch sec)) (sections pdf)) = {1}) \<and>
   set [999] \<inter> set (batch_nums (db (NewURLChecker empty_db))) = {} \<and>
   set [1, 999] \<inter> set (batch_nums (db (NewURLChecker db_one))) = {1 :: int}"
proof -
  let ?s0 = "NewURLChecker empty_db" and ?s1 = "NewURLChecker db_one"
  have a: "set [999] \<inter> set (batch_nums (db ?s0)) = {}"
    by (simp add: batch_nums_def NewURLChecker_def empty_db_def)
  have b: "set [1, 999] \<inter> set (batch_nums (db ?s1)) = {1 :: int}"
    by (simp add: batch_nums_def NewURLChecker_def db_one_def)
  have ha: "[999 :: int] \<noteq> [] \<and> fate None env_ok (clock ?s0) = Proceeds \<and>
      fate None env_ok (Suc (clock ?s0)) = Proceeds \<and>
      set [999] \<inter> set (batch_nums (db ?s0)) = {}"
    using a by (simp add: fate_env_ok)
  have hb: "[1, 999 :: int] \<noteq> [] \<and> fate None env_ok (clock ?s1) = Proceeds \<and>
      fate None env_ok (Suc (clock ?s1)) = Proceeds \<and>
      set [1, 999] \<inter> set (batch_nums (db ?s1)) \<noteq> {} \<and> (\<forall>pdf. pdf_Output env_ok pdf = None)"
    using b by (simp add: fate_env_ok pdf_Output_env_ok)
  have r1: "fst (GeneratePDFReport None env_ok [999] ?s0) = Inl NoValidBatchesFound"
    using GeneratePDFReport_contract [of None env_ok ?s0 "[999]", THEN conjunct2, THEN conjunct1] ha
    by (rule mp)
  have "\<exists>pdf. fst (GeneratePDFReport None env_ok [1, 999] ?s1) = Inr pdf \<and>
      set (map (\<lambda>sec. LinksNum (batch sec)) (sections pdf)) =
        set [1, 999] \<inter> set (batch_nums (db ?s1))"
    using GeneratePDFReport_contract [of None env_ok ?s1 "[1, 999]", THEN conjunct2, THEN conjunct2] hb
    by (rule mp)
  then have r2: "\<exists>pdf. fst (GeneratePDFReport None env_ok [1, 999] ?s1) = Inr pdf \<and>
      set (map (\<lambda>sec. LinksNum (batch sec)) (sections pdf)) = {1}"
    unfolding b .
  show ?thesis using r1 r2 a b by (intro conjI)
qed

section \<open>C6: a full queue\<close>

lemma GeneratePDFReport_frame:
  "tasks (snd (GeneratePDFReport c e batchIDs s)) = tasks s \<and>
   pendingPDFTasks (snd (GeneratePDFReport c e batchIDs s)) = pendingPDFTasks s \<and>
   shutdown (snd (GeneratePDFReport c e batchIDs s)) = shutdown s \<and>
   db (snd (GeneratePDFReport c e batchIDs s)) = db s"
  by (simp add: GeneratePDFReport_eq)

text \<open>
  C6. The queue \<open>pendingPDFTasks\<close> has capacity 10. A call of
  \<open>GeneratePDFReportAsync\<close> that is admitted (the shutdown flag is not set) while
  the queue holds ten tasks does not wait: it returns what \<open>GeneratePDFReport\<close>,
  the routine the worker runs too, returns on the same arguments, and it leaves
  the queue and the tasks as they were, so nothing of it reaches the worker.
\<close>

theorem full_queue_builds_synchronously:
  assumes "\<not> shutdown s" and "length (pendingPDFTasks s) = 10"
  shows "pendingPDFTasks_cap = 10 \<and>
         GeneratePDFReportAsync c e batchIDs s =
           (Finished (fst (GeneratePDFReport c e batchIDs s)),
            snd (GeneratePDFReport c e batchIDs s)) \<and>
         pendingPDFTasks (snd (GeneratePDFReportAsync c e batchIDs s)) = pendingPDFTasks s \<and>
         tasks (snd (GeneratePDFReportAsync c e batchIDs s)) = tasks s \<and>
         (\<forall>a. fst (GeneratePDFReportAsync c e batchIDs s) \<noteq> Waiting a)"
proof -
  have eq: "GeneratePDFReportAsync c e batchIDs s =
      (Finished (fst (GeneratePDFReport c e batchIDs s)), snd (GeneratePDFReport c e batchIDs s))"
    using assms
    by (simp add: GeneratePDFReportAsync_def pendingPDFTasks_cap_def Let_def split: prod.splits)
  show ?thesis
    unfolding eq by (simp add: pendingPDFTasks_cap_def GeneratePDFReport_frame)
qed

theorem full_queue_builds_synchronously_witness:
  "\<not> shutdown checker_full \<and> length (pendingPDFTasks checker_full) = 10 \<and>
   GeneratePDFReportAsync None env_ok [1] checker_full =
     (Finished (fst (GeneratePDFReport None env_ok [1] checker_full)),
      snd (GeneratePDFReport None env_ok [1] checker_full)) \<and>
   pendingPDFTasks (snd (GeneratePDFReportAsync None env_ok [1] checker_full)) = [0..<10]"
proof -
  have h1: "\<not> shutdown checker_full"
    by (simp add: checker_full_def NewURLChecker_def)
  have h2: "length (pendingPDFTasks checker_full) = 10"
    by (simp add: checker_full_def)
  have q: "pendingPDFTasks checker_full = [0..<10]"
    by (simp add: checker_full_def)
  have th: "GeneratePDFReportAsync None env_ok [1] checker_full =
       (Finished (fst (GeneratePDFReport None env_ok [1] checker_full)),
        snd (GeneratePDFReport None env_ok [1] checker_full)) \<and>
     pendingPDFTasks (snd (GeneratePDFReportAsync None env_ok [1] checker_full)) =
       pendingPDFTasks checker_full \<and>
     tasks (snd (GeneratePDFReportAsync None env_ok [1] checker_full)) = tasks checker_full \<and>
     (\<forall>a. fst (GeneratePDFReportAsync None env_ok [1] checker_full) \<noteq> Waiting a)"
    using full_queue_builds_synchronously [OF h1 h2, of None env_ok "[1]"] by (rule conjunct2)
  have r1: "GeneratePDFReportAsync None env_ok [1] checker_full =
       (Finished (fst (GeneratePDFReport None env_ok [1] checker_full)),
        snd (GeneratePDFReport None env_ok [1] checker_full))"
    using th by (rule conjunct1)
  have "pendingPDFTasks (snd (GeneratePDFReportAsync None env_ok [1] checker_full)) =
       pendingPDFTasks checker_full"
    using th [THEN conjunct2] by (rule conjunct1)
  then have r2: "pendingPDFTasks (snd (GeneratePDFReportAsync None env_ok [1] checker_full)) =
       [0..<10]"
    unfolding q .
  show ?thesis using h1 h2 r1 r2 by (intro conjI)
qed

section \<open>C7: waiting for a queued report\<close>

lemma await_cases:
  assumes "await c s a waited r"
  shows "(\<exists>pdfData rest. r = Inr pdfData \<and> a < length (tasks s) \<and>
            Result (tasks s ! a) = pdfData # rest) \<or>
         (\<exists>err rest. r = Inl err \<and> a < length (tasks s) \<and> Error (tasks s ! a) = err # rest) \<or>
         (r = Inl PDFGenerationTimeout \<and> 30 * Second \<le> waited) \<or>
         (r = Inl ContextErr \<and> Done c (clock s))"
  using assms by (cases rule: await.cases) auto

lemma processPDFTask_delivers:
  assumes "a < length (tasks s)" and "Result (tasks s ! a) = []" and "Error (tasks s ! a) = []"
  shows "await c (processPDFTask wc e a s) a waited
           (fst (GeneratePDFReport wc e (BatchIDs (tasks s ! a)) s))"
proof -
  obtain r s1 where g: "GeneratePDFReport wc e (BatchIDs (tasks s ! a)) s = (r, s1)"
    by (cases "GeneratePDFReport wc e (BatchIDs (tasks s ! a)) s")
  have t1: "tasks s1 = tasks s"
    using GeneratePDFReport_frame [of wc e "BatchIDs (tasks s ! a)" s] g by simp
  show ?thesis
  proof (cases r)
    case (Inl err)
    have p: "processPDFTask wc e a s =
        s1\<lparr>tasks := (tasks s1)[a := (tasks s ! a)\<lparr>Error := Error (tasks s ! a) @ [err]\<rparr>]\<rparr>"
      using g Inl by (simp add: processPDFTask_def Let_def)
    have "a < length (tasks (processPDFTask wc e a s))"
      unfolding p using assms(1) t1 by simp
    moreover have "Error (tasks (processPDFTask wc e a s) ! a) = err # []"
      unfolding p using assms(1) assms(3) t1 by simp
    ultimately have "await c (processPDFTask wc e a s) a waited (Inl err)"
      by (rule on_Error)
    then show ?thesis using g Inl by simp
  next
    case (Inr pdfData)
    have p: "processPDFTask wc e a s =
        s1\<lparr>tasks := (tasks s1)[a := (tasks s ! a)\<lparr>Result := Result (tasks s ! a) @ [pdfData]\<rparr>]\<rparr>"
      using g Inr by (simp add: processPDFTask_def Let_def)
    have "a < length (tasks (processPDFTask wc e a s))"
      unfolding p using assms(1) t1 by simp
    moreover have "Result (tasks (processPDFTask wc e a s) ! a) = pdfData # []"
      unfolding p using assms(1) assms(2) t1 by simp
    ultimately have "await c (processPDFTask wc e a s) a waited (Inr pdfData)"
      by (rule on_Result)
    then show ?thesis using g Inr by simp
  qed
qed

lemma await_iff:
  "await c s a waited r =
     ((\<exists>pdfData rest. r = Inr pdfData \<and> a < length (tasks s) \<and>
          Result (tasks s ! a) = pdfData # rest) \<or>
      (\<exists>err rest. r = Inl err \<and> a < length (tasks s) \<and> Error (tasks s ! a) = err # rest) \<or>
      (r = Inl PDFGenerationTimeout \<and> 30 * Second \<le> waited) \<or>
      (r = Inl ContextErr \<and> Done c (clock s)))"
proof
  assume "await c s a waited r"
  then show "(\<exists>pdfData rest. r = Inr pdfData \<and> a < length (tasks s) \<and>
          Result (tasks s ! a) = pdfData # rest) \<or>
      (\<exists>err rest. r = Inl err \<and> a < length (tasks s) \<and> Error (tasks s ! a) = err # rest) \<or>
      (r = Inl PDFGenerationTimeout \<and> 30 * Second \<le> waited) \<or>
      (r = Inl ContextErr \<and> Done c (clock s))"
    by (rule await_cases)
next
  assume "(\<exists>pdfData rest. r = Inr pdfData \<and> a < length (tasks s) \<and>
          Result (tasks s ! a) = pdfData # rest) \<or>
      (\<exists>err rest. r = Inl err \<and> a < length (tasks s) \<and> Error (tasks s ! a) = err # rest) \<or>
      (r = Inl PDFGenerationTimeout \<and> 30 * Second \<le> waited) \<or>
      (r = Inl ContextErr \<and> Done c (clock s))"
  then show "await c s a waited r"
  proof (elim disjE exE conjE)
    fix pdfData rest
    assume "r = Inr pdfData" "a < length (tasks s)" "Result (tasks s ! a) = pdfData # rest"
    then show ?thesis using on_Result [of a s pdfData rest c waited] by simp
  next
    fix err rest
    assume "r = Inl err" "a < length (tasks s)" "Error (tasks s ! a) = err # rest"
    then show ?thesis using on_Error [of a s err rest c waited] by simp
  next
    assume "r = Inl PDFGenerationTimeout" "30 * Second \<le> waited"
    then show ?thesis using on_timeout [of waited c s a] by simp
  next
    assume "r = Inl ContextErr" "Done c (clock s)"
    then show ?thesis using on_ctx_Done [of c s a waited] by simp
  qed
qed

lemma await_blocks:
  assumes "a < length (tasks s)" and "Result (tasks s ! a) = []" and "Error (tasks s ! a) = []"
    and "waited < 30 * Second" and "\<not> Done c (clock s)"
  shows "\<not> await c s a waited r"
proof
  assume "await c s a waited r"
  then show False
    using assms by (cases rule: await.cases) simp_all
qed

text \<open>
  C7. A call of \<open>GeneratePDFReportAsync\<close> that is admitted while the queue has
  room puts its task at the end of the queue and waits for it. The wait is a race
  of exactly four cases, and it ends with \<open>r\<close> if and only if one of them is
  ready and gives \<open>r\<close>: the payload the task's result channel holds; the error its
  error channel holds; the timeout error, when thirty seconds have passed; the
  error of the caller's context, when that context is done. Each case alone is
  enough: a payload or an error in the task's channels is returned, the timeout
  ends the wait once thirty seconds have passed, and a caller's context that is
  done ends it with the context's error at any time. While neither channel holds
  anything, the context is not done and thirty seconds have not passed, the wait
  does not end; when neither channel holds anything and the context is not done,
  the only outcome is the timeout. A turn of the worker on the task makes the
  outcome of the builder available to the wait.
\<close>

theorem queued_report_wait_outcomes:
  assumes "\<not> shutdown s" and "length (pendingPDFTasks s) < pendingPDFTasks_cap"
  shows "\<exists>a s1. GeneratePDFReportAsync c e batchIDs s = (Waiting a, s1) \<and>
      pendingPDFTasks s1 = pendingPDFTasks s @ [a] \<and>
      a < length (tasks s1) \<and>
      tasks s1 ! a = \<lparr>BatchIDs = batchIDs, Result = [], Error = []\<rparr> \<and>
      clock s1 = clock s \<and>
      (\<forall>s2 waited r. await c s2 a waited r =
          ((\<exists>pdfData rest. r = Inr pdfData \<and> a < length (tasks s2) \<and>
              Result (tasks s2 ! a) = pdfData # rest) \<or>
           (\<exists>err rest. r = Inl err \<and> a < length (tasks s2) \<and>
              Error (tasks s2 ! a) = err # rest) \<or>
           (r = Inl PDFGenerationTimeout \<and> 30 * Second \<le> waited) \<or>
           (r = Inl ContextErr \<and> Done c (clock s2)))) \<and>
      (\<forall>s2 waited pdfData rest. a < length (tasks s2) \<and>
          Result (tasks s2 ! a) = pdfData # rest \<longrightarrow> await c s2 a waited (Inr pdfData)) \<and>
      (\<forall>s2 waited err rest. a < length (tasks s2) \<and>
          Error (tasks s2 ! a) = err # rest \<longrightarrow> await c s2 a waited (Inl err)) \<and>
      (\<forall>s2 waited. 30 * Second \<le> waited \<longrightarrow> await c s2 a waited (Inl PDFGenerationTimeout)) \<and>
      (\<forall>s2 waited. Done c (clock s2) \<longrightarrow> await c s2 a waited (Inl ContextErr)) \<and>
      (\<forall>s2 waited r. await c s2 a waited r \<and> Result (tasks s2 ! a) = [] \<and>
          Error (tasks s2 ! a) = [] \<and> \<not> Done c (clock s2) \<longrightarrow> r = Inl PDFGenerationTimeout) \<and>
      (\<forall>waited r. waited < 30 * Second \<and> \<not> Done c (clock s1) \<longrightarrow> \<not> await c s1 a waited r) \<and>
      (\<forall>wc waited. await c (processPDFTask wc e a s1) a waited
          (fst (GeneratePDFReport wc e batchIDs s1)))"
proof -
  let ?a = "length (tasks s)"
  let ?task = "\<lparr>BatchIDs = batchIDs, Result = [], Error = []\<rparr>"
  let ?s1 = "s\<lparr>tasks := tasks s @ [?task], pendingPDFTasks := pendingPDFTasks s @ [?a]\<rparr>"
  have eq: "GeneratePDFReportAsync c e batchIDs s = (Waiting ?a, ?s1)"
    using assms by (simp add: GeneratePDFReportAsync_def Let_def)
  have q: "pendingPDFTasks ?s1 = pendingPDFTasks s @ [?a]" by simp
  have al: "?a < length (tasks ?s1)" by simp
  have t: "tasks ?s1 ! ?a = ?task" by simp
  have ck: "clock ?s1 = clock s" by simp
  have four: "\<forall>s2 waited r. await c s2 ?a waited r =
          ((\<exists>pdfData rest. r = Inr pdfData \<and> ?a < length (tasks s2) \<and>
              Result (tasks s2 ! ?a) = pdfData # rest) \<or>
           (\<exists>err rest. r = Inl err \<and> ?a < length (tasks s2) \<and>
              Error (tasks s2 ! ?a) = err # rest) \<or>
           (r = Inl PDFGenerationTimeout \<and> 30 * Second \<le> waited) \<or>
           (r = Inl ContextErr \<and> Done c (clock s2)))"
    by (intro allI) (rule await_iff)
  have res: "\<forall>s2 waited pdfData rest. ?a < length (tasks s2) \<and>
          Result (tasks s2 ! ?a) = pdfData # rest \<longrightarrow> await c s2 ?a waited (Inr pdfData)"
    using on_Result by blast
  have err: "\<forall>s2 waited err rest. ?a < length (tasks s2) \<and>
          Error (tasks s2 ! ?a) = err # rest \<longrightarrow> await c s2 ?a waited (Inl err)"
    using on_Error by blast
  have late: "\<forall>s2 waited. 30 * Second \<le> waited \<longrightarrow> await c s2 ?a waited (Inl PDFGenerationTimeout)"
    using on_timeout by blast
  have cancel: "\<forall>s2 waited. Done c (clock s2) \<longrightarrow> await c s2 ?a waited (Inl ContextErr)"
    using on_ctx_Done by blast
  have only: "\<forall>s2 waited r. await c s2 ?a waited r \<and> Result (tasks s2 ! ?a) = [] \<and>
          Error (tasks s2 ! ?a) = [] \<and> \<not> Done c (clock s2) \<longrightarrow> r = Inl PDFGenerationTimeout"
  proof (intro allI impI)
    fix s2 waited r
    assume h: "await c s2 ?a waited r \<and> Result (tasks s2 ! ?a) = [] \<and>
          Error (tasks s2 ! ?a) = [] \<and> \<not> Done c (clock s2)"
    then have "await c s2 ?a waited r" by simp
    then show "r = Inl PDFGenerationTimeout"
      using h by (cases rule: await.cases) simp_all
  qed
  have blocks: "\<forall>waited r. waited < 30 * Second \<and> \<not> Done c (clock ?s1) \<longrightarrow>
      \<not> await c ?s1 ?a waited r"
  proof (intro allI impI)
    fix waited r
    assume h: "waited < 30 * Second \<and> \<not> Done c (clock ?s1)"
    have w: "waited < 30 * Second" using h by (rule conjunct1)
    have nd: "\<not> Done c (clock ?s1)" using h by (rule conjunct2)
    have r0: "Result (tasks ?s1 ! ?a) = []" by simp
    have e0: "Error (tasks ?s1 ! ?a) = []" by simp
    show "\<not> await c ?s1 ?a waited r"
      using al r0 e0 w nd by (rule await_blocks)
  qed
  have worker: "\<forall>wc waited. await c (processPDFTask wc e ?a ?s1) ?a waited
          (fst (GeneratePDFReport wc e batchIDs ?s1))"
  proof (intro allI)
    fix wc waited
    have "await c (processPDFTask wc e ?a ?s1) ?a waited
        (fst (GeneratePDFReport wc e (BatchIDs (tasks ?s1 ! ?a)) ?s1))"
      by (rule processPDFTask_delivers) simp_all
    then show "await c (processPDFTask wc e ?a ?s1) ?a waited
        (fst (GeneratePDFReport wc e batchIDs ?s1))"
      by simp
  qed
  show ?thesis
  proof (intro exI conjI)
    show "GeneratePDFReportAsync c e batchIDs s = (Waiting ?a, ?s1)" by (rule eq)
    show "pendingPDFTasks ?s1 = pendingPDFTasks s @ [?a]" by (rule q)
    show "?a < length (tasks ?s1)" by (rule al)
    show "tasks ?s1 ! ?a = ?task" by (rule t)
    show "clock ?s1 = clock s" by (rule ck)
    show "\<forall>s2 waited r. await c s2 ?a waited r =
          ((\<exists>pdfData rest. r = Inr pdfData \<and> ?a < length (tasks s2) \<and>
              Result (tasks s2 ! ?a) = pdfData # rest) \<or>
           (\<exists>err rest. r = Inl err \<and> ?a < length (tasks s2) \<and>
              Error (tasks s2 ! ?a) = err # rest) \<or>
           (r = Inl PDFGenerationTimeout \<and> 30 * Second \<le> waited) \<or>
           (r = Inl ContextErr \<and> Done c (clock s2)))" by (rule four)
    show "\<forall>s2 waited pdfData rest. ?a < length (tasks s2) \<and>
          Result (tasks s2 ! ?a) = pdfData # rest \<longrightarrow> await c s2 ?a waited (Inr pdfData)"
      by (rule res)
    show "\<forall>s2 waited err rest. ?a < length (tasks s2) \<and>
          Error (tasks s2 ! ?a) = err # rest \<longrightarrow> await c s2 ?a waited (Inl err)"
      by (rule err)
    show "\<forall>s2 waited. 30 * Second \<le> waited \<longrightarrow> await c s2 ?a waited (Inl PDFGenerationTimeout)"
      by (rule late)
    show "\<forall>s2 waited. Done c (clock s2) \<longrightarrow> await c s2 ?a waited (Inl ContextErr)"
      by (rule cancel)
    show "\<forall>s2 waited r. await c s2 ?a waited r \<and> Result (tasks s2 ! ?a) = [] \<and>
          Error (tasks s2 ! ?a) = [] \<and> \<not> Done c (clock s2) \<longrightarrow> r = Inl PDFGenerationTimeout"
      by (rule only)
    show "\<forall>waited r. waited < 30 * Second \<and> \<not> Done c (clock ?s1) \<longrightarrow>
      \<not> await c ?s1 ?a waited r" by (rule blocks)
    show "\<forall>wc waited. await c (processPDFTask wc e ?a ?s1) ?a waited
          (fst (GeneratePDFReport wc e batchIDs ?s1))" by (rule worker)
  qed
qed

text \<open>
  A caller whose context is done from tick 5 on, on a fresh service at tick 0: the
  task is queued; a turn of the worker gives the wait the builder's outcome; after
  thirty seconds the wait ends with the timeout; at tick 5 it ends with the
  context's error; and at tick 0, nothing being ready, it does not end.
\<close>

theorem queued_report_wait_outcomes_witness:
  "\<not> shutdown (NewURLChecker db_one) \<and>
   length (pendingPDFTasks (NewURLChecker db_one)) < pendingPDFTasks_cap \<and>
   (\<exists>a s1. GeneratePDFReportAsync (Some 5) env_ok [1] (NewURLChecker db_one) = (Waiting a, s1) \<and>
      pendingPDFTasks s1 = [a] \<and>
      await (Some 5) (processPDFTask None env_ok a s1) a 0
        (fst (GeneratePDFReport None env_ok [1] s1)) \<and>
      await (Some 5) s1 a (30 * Second) (Inl PDFGenerationTimeout) \<and>
      await (Some 5) (s1\<lparr>clock := 5\<rparr>) a 0 (Inl ContextErr) \<and>
      (\<forall>r. \<not> await (Some 5) s1 a 0 r))"
proof -
  let ?s = "NewURLChecker db_one"
  have h1: "\<not> shutdown ?s" by (simp add: NewURLChecker_def)
  have h2: "length (pendingPDFTasks ?s) < pendingPDFTasks_cap"
    by (simp add: NewURLChecker_def pendingPDFTasks_cap_def)
  have q0: "pendingPDFTasks ?s = []" by (simp add: NewURLChecker_def)
  have c0: "clock ?s = 0" by (simp add: NewURLChecker_def)
  from queued_report_wait_outcomes [OF h1 h2, of "Some 5" env_ok "[1]"]
  obtain a s1 where eq: "GeneratePDFReportAsync (Some 5) env_ok [1] ?s = (Waiting a, s1)"
    and q: "pendingPDFTasks s1 = pendingPDFTasks ?s @ [a]"
    and ck: "clock s1 = clock ?s"
    and late: "\<forall>s2 waited. 30 * Second \<le> waited \<longrightarrow>
        await (Some 5) s2 a waited (Inl PDFGenerationTimeout)"
    and cancel: "\<forall>s2 waited. Done (Some 5) (clock s2) \<longrightarrow>
        await (Some 5) s2 a waited (Inl ContextErr)"
    and blocks: "\<forall>waited r. waited < 30 * Second \<and> \<not> Done (Some 5) (clock s1) \<longrightarrow>
        \<not> await (Some 5) s1 a waited r"
    and worker: "\<forall>wc waited. await (Some 5) (processPDFTask wc env_ok a s1) a waited
        (fst (GeneratePDFReport wc env_ok [1] s1))"
    by (elim exE conjE) (rule that; assumption)
  have q1: "pendingPDFTasks s1 = [a]" using q q0 by simp
  have w: "await (Some 5) (processPDFTask None env_ok a s1) a 0
      (fst (GeneratePDFReport None env_ok [1] s1))"
    using worker by blast
  have l: "await (Some 5) s1 a (30 * Second) (Inl PDFGenerationTimeout)"
    using late by blast
  have "Done (Some 5) (clock (s1\<lparr>clock := 5\<rparr>))" by (simp add: Done_def)
  then have cn: "await (Some 5) (s1\<lparr>clock := 5\<rparr>) a 0 (Inl ContextErr)"
    using cancel by blast
  have nd: "\<not> Done (Some 5) (clock s1)" by (simp add: ck c0 Done_def)
  have z: "(0::nat) < 30 * Second" by (simp add: Second_def)
  have bl: "\<forall>r. \<not> await (Some 5) s1 a 0 r"
    using blocks z nd by blast
  have "\<exists>a s1. GeneratePDFReportAsync (Some 5) env_ok [1] ?s = (Waiting a, s1) \<and>
      pendingPDFTasks s1 = [a] \<and>
      await (Some 5) (processPDFTask None env_ok a s1) a 0
        (fst (GeneratePDFReport None env_ok [1] s1)) \<and>
      await (Some 5) s1 a (30 * Second) (Inl PDFGenerationTimeout) \<and>
      await (Some 5) (s1\<lparr>clock := 5\<rparr>) a 0 (Inl ContextErr) \<and>
      (\<forall>r. \<not> await (Some 5) s1 a 0 r)"
    using eq q1 w l cn bl by blast
  then show ?thesis using h1 h2 by (intro conjI)
qed

section \<open>C3: concurrent admission\<close>

lemma CreateBatch_None:
  assumes "CreateBatch f n status t d0 = (None, d)"
  shows "n \<notin> set (batch_nums d0) \<and> batch_nums d = batch_nums d0 @ [n]"
proof (cases "fate_error f")
  case (Some err)
  then show ?thesis using assms by (simp add: CreateBatch_def)
next
  case None
  show ?thesis
  proof (cases "n \<in> set (batch_nums d0)")
    case True
    then show ?thesis using assms None by (simp add: CreateBatch_def)
  next
    case False
    then have "d = d0\<lparr>batches := batches d0 @ [\<lparr>LinksNum = n, BStatus = status, CreatedAt = t\<rparr>]\<rparr>"
      using assms None by (simp add: CreateBatch_def)
    then show ?thesis using False by (simp add: batch_nums_def)
  qed
qed

lemma CreateBatch_Some: "CreateBatch f n status t d0 = (Some err, d) \<Longrightarrow> d = d0"
  by (cases "fate_error f") (auto simp: CreateBatch_def split: if_splits)

lemma max_batch_num_cong: "batch_nums d = batch_nums d' \<Longrightarrow> max_batch_num d = max_batch_num d'"
  by (simp add: max_batch_num_def)

lemma statement_db: "statement c e s = (f, s1) \<Longrightarrow> db s1 = db s"
  by (auto simp: statement_def)

lemma getNextID_Inr:
  "getNextID c e s = (Inr n, s1) \<Longrightarrow> n = go_int (max_batch_num (db s) + 1) \<and> db s1 = db s"
  by (auto simp: getNextID_eq split: option.splits)

lemma getNextID_db: "getNextID c e s = (r, s1) \<Longrightarrow> db s1 = db s"
  by (auto simp: getNextID_eq)

lemma no_wrap_max:
  assumes "no_wrap s"
  shows "go_int (max_batch_num (db s) + 1) = max_batch_num (db s) + 1"
proof (rule next_number_exact)
  show "\<forall>n \<in> set (batch_nums (db s)). int64 n"
    using assms by (simp add: no_wrap_def)
  show "max_batch_num (db s) < 2 ^ 63 - 1"
  proof (cases "batch_nums (db s) = []")
    case True
    then show ?thesis by (simp add: max_batch_num_def)
  next
    case False
    then have "max_batch_num (db s) \<in> set (batch_nums (db s))" by (rule max_batch_num_mem)
    then show ?thesis using assms by (simp add: no_wrap_def)
  qed
qed

lemma inv_nums: "admission_inv s0 (s, ps, hist) \<Longrightarrow> batch_nums (db s) = batch_nums (db s0) @ hist"
  unfolding admission_inv_def by simp

lemma inv_distinct:
  "admission_inv s0 (s, ps, hist) \<Longrightarrow> distinct hist \<and> set hist \<inter> set (batch_nums (db s0)) = {}"
  unfolding admission_inv_def by simp

lemma inv_admitted:
  "admission_inv s0 (s, ps, hist) \<Longrightarrow> i < length ps \<Longrightarrow> ps ! i = Admitted n \<Longrightarrow> n \<in> set hist"
  unfolding admission_inv_def prod.case by blast

lemma inv_unique:
  "admission_inv s0 (s, ps, hist) \<Longrightarrow> i < length ps \<Longrightarrow> j < length ps \<Longrightarrow> i \<noteq> j \<Longrightarrow>
   ps ! i = Admitted n \<Longrightarrow> ps ! j \<noteq> Admitted n"
  unfolding admission_inv_def prod.case by blast

lemma inv_allocated:
  "admission_inv s0 (s, ps, hist) \<Longrightarrow> i < length ps \<Longrightarrow> ps ! i = Allocated n \<Longrightarrow>
   n = go_int (max_batch_num (db s) + 1) \<or> n \<in> set (batch_nums (db s))"
  unfolding admission_inv_def prod.case by blast

lemma inv_sorted:
  "admission_inv s0 (s, ps, hist) \<Longrightarrow> no_wrap s \<Longrightarrow>
   sorted_wrt (<) hist \<and> (\<forall>h \<in> set hist. \<forall>m \<in> set (batch_nums (db s0)). m < h)"
  unfolding admission_inv_def prod.case by blast

lemma admission_inv_start: "admission_inv s0 (s0, replicate k Arrived, [])"
  by (auto simp: admission_inv_def)

lemma admission_inv_same_store:
  assumes inv: "admission_inv s0 (s, ps, hist)"
    and nums: "batch_nums (db s1) = batch_nums (db s)"
    and len: "i < length ps"
    and at: "\<forall>n. ps ! i \<noteq> Admitted n"
    and new: "\<forall>n. p = Allocated n \<longrightarrow> n = go_int (max_batch_num (db s) + 1)"
    and notin: "\<forall>n. p \<noteq> Admitted n"
  shows "admission_inv s0 (s1, ps[i := p], hist)"
proof -
  have mx: "max_batch_num (db s1) = max_batch_num (db s)"
    using nums by (rule max_batch_num_cong)
  have nw: "no_wrap s1 = no_wrap s" using nums by (simp add: no_wrap_def)
  have nth: "ps[i := p] ! j = (if j = i then p else ps ! j)" if "j < length ps" for j
    using that by (simp add: nth_list_update)
  have a: "batch_nums (db s1) = batch_nums (db s0) @ hist"
    using inv_nums [OF inv] nums by simp
  have b: "distinct hist" and c: "set hist \<inter> set (batch_nums (db s0)) = {}"
    using inv_distinct [OF inv] by simp_all
  have d: "\<forall>j n. j < length (ps[i := p]) \<and> ps[i := p] ! j = Admitted n \<longrightarrow> n \<in> set hist"
  proof (intro allI impI)
    fix j n assume h: "j < length (ps[i := p]) \<and> ps[i := p] ! j = Admitted n"
    then have jl: "j < length ps" by simp
    have "j \<noteq> i" using h notin nth [OF jl] by auto
    then have "ps ! j = Admitted n" using h nth [OF jl] by simp
    then show "n \<in> set hist" by (rule inv_admitted [OF inv jl])
  qed
  have e: "\<forall>j k n. j < length (ps[i := p]) \<and> k < length (ps[i := p]) \<and> j \<noteq> k \<and>
      ps[i := p] ! j = Admitted n \<longrightarrow> ps[i := p] ! k \<noteq> Admitted n"
  proof (intro allI impI)
    fix j k n
    assume h: "j < length (ps[i := p]) \<and> k < length (ps[i := p]) \<and> j \<noteq> k \<and>
      ps[i := p] ! j = Admitted n"
    then have jl: "j < length ps" and kl: "k < length ps" by simp_all
    have "j \<noteq> i" using h notin nth [OF jl] by auto
    then have pj: "ps ! j = Admitted n" using h nth [OF jl] by simp
    show "ps[i := p] ! k \<noteq> Admitted n"
    proof (cases "k = i")
      case True
      then show ?thesis using notin nth [OF kl] by simp
    next
      case False
      have "j \<noteq> k" using h by simp
      then have "ps ! k \<noteq> Admitted n"
        using pj by (rule inv_unique [OF inv jl kl])
      then show ?thesis using False nth [OF kl] by simp
    qed
  qed
  have f: "\<forall>j n. j < length (ps[i := p]) \<and> ps[i := p] ! j = Allocated n \<longrightarrow>
      n = go_int (max_batch_num (db s1) + 1) \<or> n \<in> set (batch_nums (db s1))"
  proof (intro allI impI)
    fix j n assume h: "j < length (ps[i := p]) \<and> ps[i := p] ! j = Allocated n"
    then have jl: "j < length ps" by simp
    show "n = go_int (max_batch_num (db s1) + 1) \<or> n \<in> set (batch_nums (db s1))"
    proof (cases "j = i")
      case True
      then have "p = Allocated n" using h nth [OF jl] by simp
      then show ?thesis using new mx by simp
    next
      case False
      then have "ps ! j = Allocated n" using h nth [OF jl] by simp
      then have "n = go_int (max_batch_num (db s) + 1) \<or> n \<in> set (batch_nums (db s))"
        by (rule inv_allocated [OF inv jl])
      then show ?thesis using mx nums by simp
    qed
  qed
  have g: "no_wrap s1 \<longrightarrow>
      sorted_wrt (<) hist \<and> (\<forall>h \<in> set hist. \<forall>m \<in> set (batch_nums (db s0)). m < h)"
    using inv_sorted [OF inv] nw by simp
  show ?thesis
    unfolding admission_inv_def using a b c d e f g by simp
qed

lemma admission_inv_elsewhere:
  assumes inv: "admission_inv s0 (s, ps, hist)"
    and nums: "batch_nums (db s1) = batch_nums (db s)"
  shows "admission_inv s0 (s1, ps, hist)"
proof -
  have mx: "max_batch_num (db s1) = max_batch_num (db s)"
    using nums by (rule max_batch_num_cong)
  have nw: "no_wrap s1 = no_wrap s" using nums by (simp add: no_wrap_def)
  have "admission_inv s0 (s1, ps, hist) = admission_inv s0 (s, ps, hist)"
    unfolding admission_inv_def by (simp only: prod.case nums mx nw)
  then show ?thesis using inv by simp
qed

lemma admission_inv_insert:
  assumes inv: "admission_inv s0 (s, ps, hist)"
    and len: "i < length ps"
    and at: "ps ! i = Allocated n"
    and fresh: "n \<notin> set (batch_nums (db s))"
    and nums: "batch_nums (db s1) = batch_nums (db s) @ [n]"
  shows "admission_inv s0 (s1, ps[i := Admitted n], hist @ [n])"
proof -
  have nth: "ps[i := Admitted n] ! j = (if j = i then Admitted n else ps ! j)"
    if "j < length ps" for j
    using that by (simp add: nth_list_update)
  have a0: "batch_nums (db s) = batch_nums (db s0) @ hist"
    by (rule inv_nums [OF inv])
  have nh: "n \<notin> set hist" and n0: "n \<notin> set (batch_nums (db s0))"
    using fresh a0 by simp_all
  have nmax: "n = go_int (max_batch_num (db s) + 1)"
    using inv_allocated [OF inv len at] fresh by simp
  have a: "batch_nums (db s1) = batch_nums (db s0) @ (hist @ [n])"
    using nums a0 by simp
  have b: "distinct (hist @ [n])"
    using inv_distinct [OF inv] nh by simp
  have c: "set (hist @ [n]) \<inter> set (batch_nums (db s0)) = {}"
    using inv_distinct [OF inv] n0 by simp
  have d: "\<forall>j m. j < length (ps[i := Admitted n]) \<and> ps[i := Admitted n] ! j = Admitted m \<longrightarrow>
      m \<in> set (hist @ [n])"
  proof (intro allI impI)
    fix j m assume h: "j < length (ps[i := Admitted n]) \<and> ps[i := Admitted n] ! j = Admitted m"
    then have jl: "j < length ps" by simp
    show "m \<in> set (hist @ [n])"
    proof (cases "j = i")
      case True
      then show ?thesis using h nth [OF jl] by simp
    next
      case False
      then have "ps ! j = Admitted m" using h nth [OF jl] by simp
      then have "m \<in> set hist" by (rule inv_admitted [OF inv jl])
      then show ?thesis by simp
    qed
  qed
  have old: "ps ! j \<noteq> Admitted n" if jl': "j < length ps" for j
  proof
    assume "ps ! j = Admitted n"
    then have "n \<in> set hist" by (rule inv_admitted [OF inv jl'])
    then show False using nh by simp
  qed
  have e: "\<forall>j k m. j < length (ps[i := Admitted n]) \<and> k < length (ps[i := Admitted n]) \<and>
      j \<noteq> k \<and> ps[i := Admitted n] ! j = Admitted m \<longrightarrow> ps[i := Admitted n] ! k \<noteq> Admitted m"
  proof (intro allI impI)
    fix j k m
    assume h: "j < length (ps[i := Admitted n]) \<and> k < length (ps[i := Admitted n]) \<and>
      j \<noteq> k \<and> ps[i := Admitted n] ! j = Admitted m"
    then have jl: "j < length ps" and kl: "k < length ps" and jk: "j \<noteq> k" by simp_all
    show "ps[i := Admitted n] ! k \<noteq> Admitted m"
    proof (cases "j = i")
      case True
      then have mn: "m = n" using h nth [OF jl] by simp
      have "k \<noteq> i" using True jk by simp
      then show ?thesis using mn old [OF kl] nth [OF kl] by simp
    next
      case False
      then have pj: "ps ! j = Admitted m" using h nth [OF jl] by simp
      show ?thesis
      proof (cases "k = i")
        case True
        have "m \<noteq> n" using pj old [OF jl] by auto
        then show ?thesis using True nth [OF kl] by simp
      next
        case kf: False
        have "ps ! k \<noteq> Admitted m"
          using jk pj by (rule inv_unique [OF inv jl kl])
        then show ?thesis using kf nth [OF kl] by simp
      qed
    qed
  qed
  have f: "\<forall>j m. j < length (ps[i := Admitted n]) \<and> ps[i := Admitted n] ! j = Allocated m \<longrightarrow>
      m = go_int (max_batch_num (db s1) + 1) \<or> m \<in> set (batch_nums (db s1))"
  proof (intro allI impI)
    fix j m assume h: "j < length (ps[i := Admitted n]) \<and> ps[i := Admitted n] ! j = Allocated m"
    then have jl: "j < length ps" by simp
    have "j \<noteq> i" using h nth [OF jl] by auto
    then have "ps ! j = Allocated m" using h nth [OF jl] by simp
    then have "m = go_int (max_batch_num (db s) + 1) \<or> m \<in> set (batch_nums (db s))"
      by (rule inv_allocated [OF inv jl])
    then have "m = n \<or> m \<in> set (batch_nums (db s))" using nmax by simp
    then have "m \<in> set (batch_nums (db s1))" using nums by auto
    then show "m = go_int (max_batch_num (db s1) + 1) \<or> m \<in> set (batch_nums (db s1))" by simp
  qed
  have g: "no_wrap s1 \<longrightarrow> sorted_wrt (<) (hist @ [n]) \<and>
      (\<forall>h \<in> set (hist @ [n]). \<forall>m \<in> set (batch_nums (db s0)). m < h)"
  proof
    assume w1: "no_wrap s1"
    then have w: "no_wrap s" using nums by (simp add: no_wrap_def)
    have srt: "sorted_wrt (<) hist"
      and above: "\<forall>h \<in> set hist. \<forall>m \<in> set (batch_nums (db s0)). m < h"
      using inv_sorted [OF inv w] by simp_all
    have "n = max_batch_num (db s) + 1" using nmax no_wrap_max [OF w] by simp
    then have big: "\<forall>m \<in> set (batch_nums (db s)). m < n"
      using max_batch_num_ge [of _ "db s"] by fastforce
    have "sorted_wrt (<) (hist @ [n])"
      using srt big a0 by (simp add: sorted_wrt_append)
    moreover have "\<forall>h \<in> set (hist @ [n]). \<forall>m \<in> set (batch_nums (db s0)). m < h"
      using above big a0 by auto
    ultimately show "sorted_wrt (<) (hist @ [n]) \<and>
      (\<forall>h \<in> set (hist @ [n]). \<forall>m \<in> set (batch_nums (db s0)). m < h)"
      by simp
  qed
  show ?thesis
    unfolding admission_inv_def using a b c d e f g by simp
qed

lemma admit_preserves:
  assumes "admit cs e x y" and "admission_inv s0 x"
  shows "admission_inv s0 y"
  using assms
proof (cases rule: admit.cases)
  case (allocate i ps s batchNum s1 hist)
  have "batchNum = go_int (max_batch_num (db s) + 1)" and "db s1 = db s"
    using getNextID_Inr [OF allocate(5)] by simp_all
  then show ?thesis
    using admission_inv_same_store [of s0 s ps hist s1 i "Allocated batchNum"] assms(2) allocate
    by simp
next
  case (allocate_failed i ps s err s1 hist)
  have "db s1 = db s" using getNextID_db [OF allocate_failed(5)] .
  then show ?thesis
    using admission_inv_same_store [of s0 s ps hist s1 i
        "Refused (Wrap ''failed to get next batch ID'' err)"] assms(2) allocate_failed
    by simp
next
  case (insert i ps batchNum s f s1 d hist)
  have d1: "db s1 = db s" using statement_db [OF insert(5)] .
  have "batchNum \<notin> set (batch_nums (db s)) \<and> batch_nums d = batch_nums (db s) @ [batchNum]"
    using CreateBatch_None [OF insert(6)] d1 by simp
  then show ?thesis
    using admission_inv_insert [of s0 s ps hist i batchNum "s1\<lparr>db := d\<rparr>"] assms(2) insert
    by simp
next
  case (insert_failed i ps batchNum s f s1 err d hist)
  have d1: "db s1 = db s" using statement_db [OF insert_failed(5)] .
  have "d = db s" using CreateBatch_Some [OF insert_failed(6)] d1 by simp
  then show ?thesis
    using admission_inv_same_store [of s0 s ps hist "s1\<lparr>db := d\<rparr>" i
        "Refused (Wrap ''failed to create batch'' err)"] assms(2) insert_failed
    by simp
next
  case (elsewhere s1 s ps hist)
  then show ?thesis
    using admission_inv_elsewhere [of s0 s ps hist s1] assms(2) by simp
qed

lemma admissions_preserve:
  assumes "admissions cs e x y" and "admission_inv s0 x"
  shows "admission_inv s0 y"
  using assms unfolding admissions_def
  by (induction rule: rtranclp_induct) (auto intro: admit_preserves)

text \<open>
  Single steps in closed form: a read of the maximum that goes through, an
  insertion under a free number, and an insertion under a number another call has
  taken in the meantime, which the primary key refuses.
\<close>

lemma admit_allocate_ok:
  assumes "i < length ps" and "ps ! i = Arrived" and "fate (cs ! i) e (clock s) = Proceeds"
  shows "admit cs e (s, ps, hist)
           (s\<lparr>clock := Suc (clock s)\<rparr>, ps[i := Allocated (next_batch_num s)], hist)"
proof -
  have "getNextID (cs ! i) e s = (Inr (next_batch_num s), s\<lparr>clock := Suc (clock s)\<rparr>)"
    using assms(3) by (simp add: getNextID_eq next_batch_num_def)
  then show ?thesis using assms(1) assms(2) by (rule admit.allocate [rotated 2])
qed

lemma admit_insert_ok:
  assumes "i < length ps" and "ps ! i = Allocated n"
    and "fate (cs ! i) e (clock s) = Proceeds" and "n \<notin> set (batch_nums (db s))"
  shows "admit cs e (s, ps, hist)
           (s\<lparr>clock := Suc (clock s),
              db := (db s)\<lparr>batches := batches (db s) @
                      [\<lparr>LinksNum = n, BStatus = BatchStatusProcessing, CreatedAt = clock s\<rparr>]\<rparr>\<rparr>,
            ps[i := Admitted n], hist @ [n])"
proof -
  let ?s1 = "s\<lparr>clock := Suc (clock s)\<rparr>"
  let ?d = "(db s)\<lparr>batches := batches (db s) @
      [\<lparr>LinksNum = n, BStatus = BatchStatusProcessing, CreatedAt = clock s\<rparr>]\<rparr>"
  have st: "statement (cs ! i) e s = (Proceeds, ?s1)"
    using assms(3) by (simp add: statement_def)
  have cb: "CreateBatch Proceeds n BatchStatusProcessing (clock s) (db ?s1) = (None, ?d)"
    using assms(4) by (simp add: CreateBatch_Proceeds_fresh)
  have "admit cs e (s, ps, hist) (?s1\<lparr>db := ?d\<rparr>, ps[i := Admitted n], hist @ [n])"
    using assms(1) assms(2) st cb by (rule admit.insert)
  then show ?thesis by simp
qed

lemma admit_insert_taken:
  assumes "i < length ps" and "ps ! i = Allocated n"
    and "fate (cs ! i) e (clock s) = Proceeds" and "n \<in> set (batch_nums (db s))"
  shows "admit cs e (s, ps, hist)
           (s\<lparr>clock := Suc (clock s)\<rparr>,
            ps[i := Refused (Wrap ''failed to create batch''
                       (Wrap ''failed to create batch'' UniqueConstraint))], hist)"
proof -
  let ?s1 = "s\<lparr>clock := Suc (clock s)\<rparr>"
  have st: "statement (cs ! i) e s = (Proceeds, ?s1)"
    using assms(3) by (simp add: statement_def)
  have cb: "CreateBatch Proceeds n BatchStatusProcessing (clock s) (db ?s1) =
      (Some (Wrap ''failed to create batch'' UniqueConstraint), db s)"
    using assms(4) by (simp add: CreateBatch_def)
  have "admit cs e (s, ps, hist)
      (?s1\<lparr>db := db s\<rparr>,
       ps[i := Refused (Wrap ''failed to create batch''
                  (Wrap ''failed to create batch'' UniqueConstraint))], hist)"
    using assms(1) assms(2) st cb by (rule admit.insert_failed)
  then show ?thesis by simp
qed

text \<open>
  C3, as the code has it. From any store and any number of calls that have not yet
  read the maximum, however the statements of the calls are interleaved: no two
  calls are in under the same number (of two calls that hold the same number the
  primary key lets one in and the other returns an error), no number is admitted
  twice or was in the store before, and the store's numbers are the old ones
  followed by the admitted ones. While no number in the store is \<open>2^63 - 1\<close> or
  outside the 64-bit range, the admitted numbers are strictly increasing in the
  order of admission and greater than every number the store held before.
\<close>

theorem concurrent_admissions_unique:
  assumes "admissions cs e (s0, replicate k Arrived, []) (s, ps, hist)"
  shows "(\<forall>i j n. i < length ps \<and> j < length ps \<and> i \<noteq> j \<and> ps ! i = Admitted n \<longrightarrow>
            ps ! j \<noteq> Admitted n) \<and>
         (\<forall>i n. i < length ps \<and> ps ! i = Admitted n \<longrightarrow> n \<in> set hist) \<and>
         distinct hist \<and>
         set hist \<inter> set (batch_nums (db s0)) = {} \<and>
         batch_nums (db s) = batch_nums (db s0) @ hist \<and>
         (no_wrap s \<longrightarrow>
            sorted_wrt (<) hist \<and> (\<forall>h \<in> set hist. \<forall>m \<in> set (batch_nums (db s0)). m < h))"
proof -
  have inv: "admission_inv s0 (s, ps, hist)"
    using assms admission_inv_start by (rule admissions_preserve)
  show ?thesis
  proof (intro conjI)
    show "\<forall>i j n. i < length ps \<and> j < length ps \<and> i \<noteq> j \<and> ps ! i = Admitted n \<longrightarrow>
        ps ! j \<noteq> Admitted n"
      using inv_unique [OF inv] by blast
    show "\<forall>i n. i < length ps \<and> ps ! i = Admitted n \<longrightarrow> n \<in> set hist"
      using inv_admitted [OF inv] by blast
    show "distinct hist" using inv_distinct [OF inv] by simp
    show "set hist \<inter> set (batch_nums (db s0)) = {}" using inv_distinct [OF inv] by simp
    show "batch_nums (db s) = batch_nums (db s0) @ hist" by (rule inv_nums [OF inv])
    show "no_wrap s \<longrightarrow>
        sorted_wrt (<) hist \<and> (\<forall>h \<in> set hist. \<forall>m \<in> set (batch_nums (db s0)). m < h)"
      using inv_sorted [OF inv] by blast
  qed
qed

lemma admissions_single:
  assumes "i < length ps" and "ps ! i = Arrived"
    and "fate (cs ! i) e (clock s) = Proceeds" and "fate (cs ! i) e (Suc (clock s)) = Proceeds"
    and "next_batch_num s \<notin> set (batch_nums (db s))"
  shows "admissions cs e (s, ps, hist)
           (admitted s, ps[i := Admitted (next_batch_num s)], hist @ [next_batch_num s])"
proof -
  let ?n = "next_batch_num s"
  let ?s1 = "s\<lparr>clock := Suc (clock s)\<rparr>"
  let ?ps1 = "ps[i := Allocated ?n]"
  have one: "admit cs e (s, ps, hist) (?s1, ?ps1, hist)"
    using assms(1) assms(2) assms(3) by (rule admit_allocate_ok)
  have a: "i < length ?ps1" using assms(1) by simp
  have b: "?ps1 ! i = Allocated ?n" using assms(1) by simp
  have c: "fate (cs ! i) e (clock ?s1) = Proceeds" using assms(4) by simp
  have d: "?n \<notin> set (batch_nums (db ?s1))" using assms(5) by simp
  have "admit cs e (?s1, ?ps1, hist)
      (?s1\<lparr>clock := Suc (clock ?s1),
           db := (db ?s1)\<lparr>batches := batches (db ?s1) @
                   [\<lparr>LinksNum = ?n, BStatus = BatchStatusProcessing, CreatedAt = clock ?s1\<rparr>]\<rparr>\<rparr>,
       ?ps1[i := Admitted ?n], hist @ [?n])"
    using a b c d by (rule admit_insert_ok)
  then have two: "admit cs e (?s1, ?ps1, hist) (admitted s, ps[i := Admitted ?n], hist @ [?n])"
    by (simp add: admitted_def)
  show ?thesis
    unfolding admissions_def using one two by (rule rtranclp.rtrancl_into_rtrancl [OF r_into_rtranclp])
qed

text \<open>
  A call of \<open>CheckLinks\<close> that returns a response is one of the interleavings: the
  read, the insertion, and then statements that add no batch row.
\<close>

lemma CheckLinks_Value_admitted:
  assumes "CheckLinks c e ls s = (Value r, s')"
  shows "ls \<noteq> [] \<and> fate c e (clock s) = Proceeds \<and> fate c e (Suc (clock s)) = Proceeds \<and>
         next_batch_num s \<notin> set (batch_nums (db s))"
proof -
  have ne: "ls \<noteq> []"
    using assms by (auto simp: CheckLinks_def)
  have f0: "fate c e (clock s) = Proceeds"
  proof (cases "fate c e (clock s)")
    case Proceeds then show ?thesis .
  next
    case Cancelled
    then show ?thesis using assms by (simp add: CheckLinks_eq [OF ne])
  next
    case Faults
    then show ?thesis using assms by (simp add: CheckLinks_eq [OF ne])
  qed
  let ?r = "CreateBatch (fate c e (Suc (clock s))) (next_batch_num s) BatchStatusProcessing
      (Suc (clock s)) (db s)"
  have ok: "fst ?r = None"
  proof (cases "fst ?r")
    case None then show ?thesis .
  next
    case (Some er)
    then show ?thesis
      using assms f0 by (simp add: CheckLinks_eq [OF ne] Let_def next_batch_num_def)
  qed
  have f1: "fate c e (Suc (clock s)) = Proceeds"
  proof (cases "fate c e (Suc (clock s))")
    case Proceeds then show ?thesis .
  next
    case Cancelled
    then show ?thesis using ok by (simp add: CreateBatch_def)
  next
    case Faults
    then show ?thesis using ok by (simp add: CreateBatch_def)
  qed
  have fresh: "next_batch_num s \<notin> set (batch_nums (db s))"
    using ok f1 by (auto simp: CreateBatch_def split: if_splits)
  show ?thesis using ne f0 f1 fresh by simp
qed

lemma CheckLinks_Value_is_admission:
  assumes "CheckLinks c e ls s = (Value r, s')"
  shows "admissions [c] e (s, [Arrived], []) (s', [Admitted (RespLinksNum r)], [RespLinksNum r])"
proof -
  have h: "ls \<noteq> []" "fate c e (clock s) = Proceeds" "fate c e (Suc (clock s)) = Proceeds"
    "next_batch_num s \<notin> set (batch_nums (db s))"
    using CheckLinks_Value_admitted [OF assms] by simp_all
  have num: "RespLinksNum r = next_batch_num s"
    using CheckLinks_admitted_number [OF h] assms by simp
  have "batch_nums (db (snd (CheckLinks c e ls s))) = batch_nums (db s) @ [next_batch_num s]"
    by (rule CheckLinks_admitted_batch_nums [OF h])
  then have nums: "batch_nums (db s') = batch_nums (db (admitted s))"
    using assms by (simp add: batch_nums_admitted)
  have "admissions [c] e (s, [Arrived], [])
      (admitted s, [Arrived][0 := Admitted (next_batch_num s)], [] @ [next_batch_num s])"
    by (rule admissions_single) (use h in simp_all)
  then have first: "admissions [c] e (s, [Arrived], [])
      (admitted s, [Admitted (next_batch_num s)], [next_batch_num s])"
    by simp
  have "admit [c] e (admitted s, [Admitted (next_batch_num s)], [next_batch_num s])
      (s', [Admitted (next_batch_num s)], [next_batch_num s])"
    using nums by (rule admit.elsewhere)
  then have "admissions [c] e (s, [Arrived], [])
      (s', [Admitted (next_batch_num s)], [next_batch_num s])"
    using first unfolding admissions_def by (rule rtranclp.rtrancl_into_rtrancl [rotated])
  then show ?thesis using num by simp
qed

text \<open>
  Three calls on the empty store: the first two both read the maximum before
  either inserts and both hold 1; the first is in, the second is refused by the
  primary key; the third reads afterwards and is in under 2.
\<close>

lemma three_calls_race:
  "admissions [None, None, None] env_ok
     (checker_at 0 empty_db, replicate 3 Arrived, [])
     (checker_at 6 db_b12,
      [Admitted 1,
       Refused (Wrap ''failed to create batch'' (Wrap ''failed to create batch'' UniqueConstraint)),
       Admitted 2],
      [1, 2])"
proof -
  let ?cs = "[None, None, None] :: ctx list"
  let ?R = "Refused (Wrap ''failed to create batch'' (Wrap ''failed to create batch'' UniqueConstraint))"
  have n0: "next_batch_num (checker_at t empty_db) = 1" for t
    by (simp add: next_batch_num_def max_batch_num_def batch_nums_def go_int_def
          checker_at_def empty_db_def)
  have n1: "next_batch_num (checker_at t db_b1) = 2" for t
    by (simp add: next_batch_num_def max_batch_num_def batch_nums_def go_int_def
          checker_at_def db_b1_def)
  have tick: "(checker_at t d)\<lparr>clock := Suc (clock (checker_at t d))\<rparr> = checker_at (Suc t) d" for t d
    by (simp add: checker_at_def)
  have s1: "admit ?cs env_ok (checker_at 0 empty_db, [Arrived, Arrived, Arrived], [])
      (checker_at 1 empty_db, [Allocated 1, Arrived, Arrived], [])"
    using admit_allocate_ok [of 0 "[Arrived, Arrived, Arrived]" ?cs env_ok "checker_at 0 empty_db" "[]"]
    by (simp add: fate_env_ok n0 tick)
  have s2: "admit ?cs env_ok (checker_at 1 empty_db, [Allocated 1, Arrived, Arrived], [])
      (checker_at 2 empty_db, [Allocated 1, Allocated 1, Arrived], [])"
    using admit_allocate_ok [of 1 "[Allocated 1, Arrived, Arrived]" ?cs env_ok "checker_at 1 empty_db" "[]"]
    by (simp add: fate_env_ok n0 tick numeral_2_eq_2)
  have s3: "admit ?cs env_ok (checker_at 2 empty_db, [Allocated 1, Allocated 1, Arrived], [])
      (checker_at 3 db_b1, [Admitted 1, Allocated 1, Arrived], [1])"
    using admit_insert_ok [of 0 "[Allocated 1, Allocated 1, Arrived]" 1 ?cs env_ok
        "checker_at 2 empty_db" "[]"]
    by (simp add: fate_env_ok batch_nums_def checker_at_def empty_db_def db_b1_def numeral_3_eq_3)
  have s4: "admit ?cs env_ok (checker_at 3 db_b1, [Admitted 1, Allocated 1, Arrived], [1])
      (checker_at 4 db_b1, [Admitted 1, ?R, Arrived], [1])"
    using admit_insert_taken [of 1 "[Admitted 1, Allocated 1, Arrived]" 1 ?cs env_ok
        "checker_at 3 db_b1" "[1]"]
    by (simp add: fate_env_ok batch_nums_def checker_at_def db_b1_def eval_nat_numeral)
  have s5: "admit ?cs env_ok (checker_at 4 db_b1, [Admitted 1, ?R, Arrived], [1])
      (checker_at 5 db_b1, [Admitted 1, ?R, Allocated 2], [1])"
    using admit_allocate_ok [of 2 "[Admitted 1, ?R, Arrived]" ?cs env_ok "checker_at 4 db_b1" "[1]"]
    by (simp add: fate_env_ok n1 tick eval_nat_numeral)
  have s6: "admit ?cs env_ok (checker_at 5 db_b1, [Admitted 1, ?R, Allocated 2], [1])
      (checker_at 6 db_b12, [Admitted 1, ?R, Admitted 2], [1, 2])"
    using admit_insert_ok [of 2 "[Admitted 1, ?R, Allocated 2]" 2 ?cs env_ok
        "checker_at 5 db_b1" "[1]"]
    by (simp add: fate_env_ok batch_nums_def checker_at_def db_b1_def db_b12_def eval_nat_numeral)
  have r: "replicate 3 Arrived = [Arrived, Arrived, Arrived]"
    by (simp add: numeral_3_eq_3)
  show ?thesis
    unfolding admissions_def r
    using s1 s2 s3 s4 s5 s6
    by (meson rtranclp.rtrancl_into_rtrancl rtranclp.rtrancl_refl)
qed

theorem concurrent_admissions_unique_witness:
  "admissions [None, None, None] env_ok
     (checker_at 0 empty_db, replicate 3 Arrived, [])
     (checker_at 6 db_b12,
      [Admitted 1,
       Refused (Wrap ''failed to create batch'' (Wrap ''failed to create batch'' UniqueConstraint)),
       Admitted 2],
      [1, 2]) \<and>
   no_wrap (checker_at 6 db_b12) \<and>
   batch_nums (db (checker_at 6 db_b12)) = batch_nums (db (checker_at 0 empty_db)) @ [1, 2] \<and>
   sorted_wrt (<) [1, 2 :: int] \<and> distinct [1, 2 :: int]"
proof -
  have nw: "no_wrap (checker_at 6 db_b12)"
    by (simp add: no_wrap_def batch_nums_def checker_at_def db_b12_def int64_def)
  note th = concurrent_admissions_unique [OF three_calls_race]
  have a: "distinct [1, 2 :: int]"
    using th by blast
  have b: "batch_nums (db (checker_at 6 db_b12)) = batch_nums (db (checker_at 0 empty_db)) @ [1, 2]"
    using th by blast
  have c: "sorted_wrt (<) [1, 2 :: int]"
    using th nw by blast
  show ?thesis using three_calls_race nw a b c by (intro conjI)
qed

text \<open>
  The claim as stated, for every store: one call on the store whose batch has
  number \<open>2^63 - 1\<close> is admitted under \<open>- 2^63\<close>, so the numbers of the store are
  not increasing in the order of admission.
\<close>

theorem admission_wraps_counterexample:
  "admissions [None] env_ok
     (NewURLChecker db_max, replicate 1 Arrived, [])
     (admitted (NewURLChecker db_max), [Admitted (- 9223372036854775808)],
      [- 9223372036854775808]) \<and>
   batch_nums (db (admitted (NewURLChecker db_max))) =
     [9223372036854775807, - 9223372036854775808] \<and>
   \<not> sorted_wrt (<) [9223372036854775807, - 9223372036854775808 :: int]"
proof -
  let ?s = "NewURLChecker db_max"
  have b: "batch_nums (db ?s) = [9223372036854775807]"
    by (simp add: batch_nums_def NewURLChecker_def db_max_def)
  have nx: "next_batch_num ?s = - 9223372036854775808"
    by (simp add: next_batch_num_def max_batch_num_def b go_int_def)
  have fresh: "next_batch_num ?s \<notin> set (batch_nums (db ?s))"
    by (simp add: nx b)
  have "admissions [None] env_ok (?s, [Arrived], [])
      (admitted ?s, [Arrived][0 := Admitted (next_batch_num ?s)], [] @ [next_batch_num ?s])"
    by (rule admissions_single) (use fresh in \<open>simp_all add: fate_env_ok\<close>)
  then have "admissions [None] env_ok (?s, replicate 1 Arrived, [])
      (admitted ?s, [Admitted (- 9223372036854775808)], [- 9223372036854775808])"
    by (simp add: nx)
  moreover have "batch_nums (db (admitted ?s)) = [9223372036854775807, - 9223372036854775808]"
    by (simp add: batch_nums_admitted b nx)
  ultimately show ?thesis by simp
qed

end
